theory Spec2Isabelle
  imports Main "HOL-Library.Word"
begin

unbundle bit_operations_syntax

section \<open>The RTP packetizer of camera-toolkit (src/src/rtp_packer.cpp)\<close>

text \<open>
  The embedding follows \<^verbatim>\<open>RTPPacker::Impl\<close>. The C++ \<^verbatim>\<open>int\<close> fields are mathematical
  integers; the two sums the code forms, \<^verbatim>\<open>nalu_.len + 12\<close> and
  \<^verbatim>\<open>maxPacketLength + 14\<close>, leave the 32-bit range only for a NAL unit of about
  2 GiB, which is outside this development. Pointers into the input are integer offsets
  from \<^verbatim>\<open>inBuffer_\<close>, and a null pointer is \<open>None\<close>. The input memory is a
  total function from offsets to bytes: the code reads up to three bytes past the end of
  the buffer without a check, and it then sees whatever lies there.
\<close>

type_synonym byte = "8 word"
type_synonym memory = "int \<Rightarrow> byte"

definition H264_PAYLOAD_TYPE :: int where
  "H264_PAYLOAD_TYPE = 96"

definition MAX_OUTBUF_SIZE :: int where
  "MAX_OUTBUF_SIZE = 10 * 1024"

text \<open>\<^verbatim>\<open>struct Buffer\<close> of common.h: a data pointer (null or the memory it points to) and a size.\<close>

record Buffer =
  data :: "memory option"
  size :: int

text \<open>\<^verbatim>\<open>struct RTPPackerParams\<close> of rtp_packer.h.\<close>

record RTPPackerParams =
  maxPacketLength :: int
  ssrc :: "32 word"

text \<open>\<^verbatim>\<open>struct NALU\<close>: a view into the input buffer.\<close>

record NALU =
  startCodeLen :: int
  ndata :: int
  len :: int
  forbiddenBit :: int
  nalRefIdc :: int
  nalUnitType :: int

text \<open>The fields of \<^verbatim>\<open>RTPPacker::Impl\<close>; the scratch buffer is rebuilt by every \<^verbatim>\<open>get\<close>.\<close>

record packer =
  params :: RTPPackerParams
  inBuffer :: memory
  nextNaluPtr :: "int option"
  inBufferSize :: int
  fuCounter :: int
  lastFuSize :: int
  fuIndex :: int
  inBufferComplete :: bool
  naluComplete :: bool
  nalu :: NALU
  seqNum :: "16 word"
  tsStartMillisec :: "32 word"
  tsCurrentSample :: "32 word"

text \<open>What one call of \<^verbatim>\<open>get\<close> does: a packet, \<^verbatim>\<open>std::nullopt\<close>, the
  \<^verbatim>\<open>PackException\<close>, or undefined behaviour (a division by zero, a \<^verbatim>\<open>memcpy\<close> of
  negative length). After \<open>Undefined\<close> the state that the model returns means nothing.\<close>

datatype outcome = Packet "byte list" | Nothing | PackException | Undefined

subsection \<open>Start codes and the scanner\<close>

definition isStartCode4 :: "memory \<Rightarrow> int \<Rightarrow> bool" where
  "isStartCode4 m p \<longleftrightarrow> m p = 0 \<and> m (p + 1) = 0 \<and> m (p + 2) = 0 \<and> m (p + 3) = 1"

definition isStartCode3 :: "memory \<Rightarrow> int \<Rightarrow> bool" where
  "isStartCode3 m p \<longleftrightarrow> m p = 0 \<and> m (p + 1) = 0 \<and> m (p + 2) = 1"

text \<open>The \<^verbatim>\<open>while (true)\<close> loop of \<^verbatim>\<open>getNextNalu\<close>: the pointer is advanced first, then
  compared with the buffer's end, then tested for a start code. The result is the final
  \<^verbatim>\<open>nextPtr\<close> and the new \<^verbatim>\<open>nextNaluPtr_\<close>.\<close>

function findNext :: "memory \<Rightarrow> int \<Rightarrow> int \<Rightarrow> int \<times> int option" where
  "findNext m sz p =
     (let p' = p + 1 in
      if sz \<le> p' then (p', None)
      else if isStartCode3 m p' \<or> isStartCode4 m p' then (p', Some p')
      else findNext m sz p')"
  by pat_completeness auto
termination
  by (relation "measure (\<lambda>(m, sz, p). nat (sz - p))") auto

declare findNext.simps [simp del]

definition selectNalu :: "packer \<Rightarrow> int \<Rightarrow> int \<Rightarrow> packer" where
  "selectNalu s cur scl =
     (let (nextPtr, nn) = findNext (inBuffer s) (inBufferSize s) (cur + scl);
          d = cur + scl;
          b = inBuffer s d
      in s\<lparr>nextNaluPtr := nn,
            nalu := \<lparr>startCodeLen = scl, ndata = d, len = nextPtr - cur - scl,
                     forbiddenBit = uint (drop_bit 7 (b AND 0x80)),
                     nalRefIdc = uint (drop_bit 5 (b AND 0x60)),
                     nalUnitType = uint (b AND 0x1f)\<rparr>\<rparr>)"

definition getNextNalu :: "packer \<Rightarrow> int \<times> packer" where
  "getNextNalu s =
     (case nextNaluPtr s of
        None \<Rightarrow> (0, s)
      | Some cur \<Rightarrow>
          if isStartCode3 (inBuffer s) cur then (1, selectNalu s cur 3)
          else if isStartCode4 (inBuffer s) cur then (1, selectNalu s cur 4)
          else (-1, s))"

subsection \<open>Header bytes\<close>

text \<open>The bit-fields are laid out from the least significant bit, as the source's own
  comment on \<^verbatim>\<open>RTPHeader\<close> says; a field keeps the low bits of the value stored in it.
  \<^verbatim>\<open>htons\<close> and \<^verbatim>\<open>htonl\<close> put the most significant byte first.\<close>

definition be16 :: "16 word \<Rightarrow> byte list" where
  "be16 w = [ucast (drop_bit 8 w), ucast w]"

definition be32 :: "32 word \<Rightarrow> byte list" where
  "be32 w = [ucast (drop_bit 24 w), ucast (drop_bit 16 w), ucast (drop_bit 8 w), ucast w]"

definition rtpHeader :: "bool \<Rightarrow> 16 word \<Rightarrow> 32 word \<Rightarrow> 32 word \<Rightarrow> byte list" where
  "rtpHeader marker sq ts sc =
     [push_bit 6 2,
      (word_of_int H264_PAYLOAD_TYPE AND 0x7f) OR push_bit 7 (of_bool marker)]
     @ be16 sq @ be32 ts @ be32 sc"

definition naluHeader :: "int \<Rightarrow> int \<Rightarrow> int \<Rightarrow> byte" where
  "naluHeader f nri t =
     (word_of_int t AND 0x1f) OR push_bit 5 (word_of_int nri AND 3) OR push_bit 7 (word_of_int f AND 1)"

definition fuIndicator :: "int \<Rightarrow> int \<Rightarrow> byte" where
  "fuIndicator f nri =
     28 OR push_bit 5 (word_of_int nri AND 3) OR push_bit 7 (word_of_int f AND 1)"

definition fuHeader :: "bool \<Rightarrow> bool \<Rightarrow> int \<Rightarrow> byte" where
  "fuHeader s e t =
     (word_of_int t AND 0x1f) OR push_bit 6 (of_bool e) OR push_bit 7 (of_bool s)"

subsection \<open>The clock, memcpy and the scratch buffer\<close>

text \<open>\<^verbatim>\<open>(getCurrentMillisec() - tsStartMillisec_) * 90.0\<close> converted to \<^verbatim>\<open>uint32_t\<close>: the
  difference wraps in 32 bits, the product is exact in a double. Where the product does
  not fit 32 bits the conversion is undefined in C++; the low 32 bits are taken here.\<close>

definition sampleTime :: "32 word \<Rightarrow> 32 word \<Rightarrow> 32 word" where
  "sampleTime start now = word_of_nat (unat (now - start) * 90)"

text \<open>The \<open>n\<close> bytes of the memory from offset \<open>p\<close> on.\<close>

definition bytesAt :: "memory \<Rightarrow> int \<Rightarrow> nat \<Rightarrow> byte list" where
  "bytesAt m p n = map (\<lambda>k. m (p + int k)) [0..<n]"

text \<open>The bytes \<^verbatim>\<open>memcpy\<close> reads: \<open>n\<close> bytes from offset \<open>src\<close>; a negative \<open>n\<close>
  becomes a huge \<^verbatim>\<open>size_t\<close>, which is undefined behaviour.\<close>

definition memcpy :: "memory \<Rightarrow> int \<Rightarrow> int \<Rightarrow> byte list option" where
  "memcpy m src n = (if n < 0 then None else Some (bytesAt m src (nat n)))"

text \<open>The returned \<^verbatim>\<open>Buffer(outBuffer_.data(), outSize)\<close>: the first \<open>outSize\<close> bytes of
  the zeroed scratch buffer after \<open>written\<close> has been stored at its start. The view is
  into the scratch buffer, which the next \<^verbatim>\<open>get\<close> overwrites; a packet here is what the
  caller reads before its next call.\<close>

definition outView :: "byte list \<Rightarrow> int \<Rightarrow> byte list" where
  "outView written outSize =
     take (nat outSize) (written @ replicate (nat MAX_OUTBUF_SIZE - length written) 0)"

subsection \<open>Construction, put and get\<close>

text \<open>The constructor; \<open>now\<close> is what \<^verbatim>\<open>getCurrentMillisec()\<close> returns in it. The
  fields keep their default member initialisers.\<close>

definition new_packer :: "RTPPackerParams \<Rightarrow> 32 word \<Rightarrow> packer" where
  "new_packer ps now =
     \<lparr>params = ps, inBuffer = (\<lambda>_. 0), nextNaluPtr = None, inBufferSize = 0,
      fuCounter = 0, lastFuSize = 0, fuIndex = 0,
      inBufferComplete = False, naluComplete = True,
      nalu = \<lparr>startCodeLen = 0, ndata = 0, len = 0, forbiddenBit = 0, nalRefIdc = 0,
              nalUnitType = 0\<rparr>,
      seqNum = 0, tsStartMillisec = now, tsCurrentSample = 0\<rparr>"

text \<open>\<^verbatim>\<open>put\<close> binds the buffer and resets everything but the sequence number, the
  start time and the last timestamp.\<close>

definition put :: "Buffer \<Rightarrow> packer \<Rightarrow> packer" where
  "put input s =
     s\<lparr>inBuffer := (case data input of None \<Rightarrow> (\<lambda>_. 0) | Some m \<Rightarrow> m),
       nextNaluPtr := (case data input of None \<Rightarrow> None | Some m \<Rightarrow> Some 0),
       inBufferSize := size input,
       fuCounter := 0,
       lastFuSize := 0,
       fuIndex := 0,
       inBufferComplete := False,
       naluComplete := True\<rparr>"

text \<open>C++ division and remainder truncate towards zero.\<close>

definition c_div :: "int \<Rightarrow> int \<Rightarrow> int" where
  "c_div a b = sgn a * sgn b * (\<bar>a\<bar> div \<bar>b\<bar>)"

definition c_mod :: "int \<Rightarrow> int \<Rightarrow> int" where
  "c_mod a b = a - b * c_div a b"

text \<open>The branch of \<^verbatim>\<open>get\<close> for a NAL unit that fits one packet (lines 178 to 197);
  \<open>sq\<close> is the sequence number already stored in the header.\<close>

definition getWhole :: "16 word \<Rightarrow> packer \<Rightarrow> outcome \<times> packer" where
  "getWhole sq s =
     (let n = nalu s;
          hdr = rtpHeader True sq (tsCurrentSample s) (ssrc (params s));
          outSize = len n + 12
      in if MAX_OUTBUF_SIZE < outSize then (PackException, s)
         else case memcpy (inBuffer s) (ndata n + 1) (len n - 1) of
                None \<Rightarrow> (Undefined, s)
              | Some payload \<Rightarrow>
                  (Packet (outView (hdr @ [naluHeader (forbiddenBit n) (nalRefIdc n) (nalUnitType n)]
                                      @ payload) outSize),
                   s\<lparr>naluComplete := True\<rparr>))"

text \<open>The fragment count and the size of the last fragment (lines 200 to 207).\<close>

definition planFragments :: "packer \<Rightarrow> packer" where
  "planFragments s =
     (let n = nalu s; mx = maxPacketLength (params s) in
      (if c_mod (len n) mx = 0
       then s\<lparr>fuCounter := c_div (len n) mx - 1, lastFuSize := mx\<rparr>
       else s\<lparr>fuCounter := c_div (len n) mx, lastFuSize := c_mod (len n) mx\<rparr>)
      \<lparr>fuIndex := 0\<rparr>)"

text \<open>The branch for the first fragment (lines 199 to 235); the remainder by a
  \<^verbatim>\<open>maxPacketLength\<close> of zero is undefined.\<close>

definition getFirstFU :: "16 word \<Rightarrow> packer \<Rightarrow> outcome \<times> packer" where
  "getFirstFU sq s0 =
     (let n = nalu s0; mx = maxPacketLength (params s0) in
      if mx = 0 then (Undefined, s0)
      else
        let s = planFragments s0;
            hdr = rtpHeader False sq (tsCurrentSample s) (ssrc (params s));
            outSize = mx + 14
        in if MAX_OUTBUF_SIZE < outSize then (PackException, s)
           else case memcpy (inBuffer s) (ndata n + 1) mx of
                  None \<Rightarrow> (Undefined, s)
                | Some payload \<Rightarrow>
                    (Packet (outView (hdr @ [fuIndicator (forbiddenBit n) (nalRefIdc n),
                                             fuHeader True False (nalUnitType n)]
                                        @ payload) outSize),
                     s\<lparr>naluComplete := False, fuIndex := fuIndex s + 1\<rparr>))"

text \<open>The branch for the last fragment (lines 241 to 268).\<close>

definition getLastFU :: "16 word \<Rightarrow> packer \<Rightarrow> outcome \<times> packer" where
  "getLastFU sq s =
     (let n = nalu s; mx = maxPacketLength (params s);
          hdr = rtpHeader True sq (tsCurrentSample s) (ssrc (params s));
          outSize = lastFuSize s - 1 + 14
      in if MAX_OUTBUF_SIZE < outSize then (PackException, s)
         else case memcpy (inBuffer s) (ndata n + 1 + fuIndex s * mx) (lastFuSize s - 1) of
                None \<Rightarrow> (Undefined, s)
              | Some payload \<Rightarrow>
                  (Packet (outView (hdr @ [fuIndicator (forbiddenBit n) (nalRefIdc n),
                                           fuHeader False True (nalUnitType n)]
                                      @ payload) outSize),
                   s\<lparr>naluComplete := True, fuIndex := 0\<rparr>))"

text \<open>The branch for a middle fragment (lines 269 to 296).\<close>

definition getMiddleFU :: "16 word \<Rightarrow> packer \<Rightarrow> outcome \<times> packer" where
  "getMiddleFU sq s =
     (let n = nalu s; mx = maxPacketLength (params s);
          hdr = rtpHeader False sq (tsCurrentSample s) (ssrc (params s));
          outSize = mx + 14
      in if MAX_OUTBUF_SIZE < outSize then (PackException, s)
         else case memcpy (inBuffer s) (ndata n + 1 + fuIndex s * mx) mx of
                None \<Rightarrow> (Undefined, s)
              | Some payload \<Rightarrow>
                  (Packet (outView (hdr @ [fuIndicator (forbiddenBit n) (nalRefIdc n),
                                           fuHeader False False (nalUnitType n)]
                                      @ payload) outSize),
                   s\<lparr>fuIndex := fuIndex s + 1\<rparr>))"

text \<open>\<^verbatim>\<open>get\<close>; \<open>now\<close> is what \<^verbatim>\<open>getCurrentMillisec()\<close> returns during the call.
  \<^verbatim>\<open>htons(seqNum_++)\<close> stores the old sequence number in the header, which the branches
  receive as \<open>sq\<close>, and increments the field.\<close>

definition get :: "32 word \<Rightarrow> packer \<Rightarrow> outcome \<times> packer" where
  "get now s =
     (if inBufferComplete s then (Nothing, s)
      else if naluComplete s then
        (case getNextNalu s of (ret, s1) \<Rightarrow>
           if ret \<le> 0 then (Nothing, s1\<lparr>inBufferComplete := True\<rparr>)
           else
             let s2 = s1\<lparr>seqNum := seqNum s1 + 1,
                         tsCurrentSample := sampleTime (tsStartMillisec s1) now\<rparr>
             in if len (nalu s2) \<le> maxPacketLength (params s2) then getWhole (seqNum s1) s2
                else getFirstFU (seqNum s1) s2)
      else
        let s1 = s\<lparr>seqNum := seqNum s + 1\<rparr>
        in if fuIndex s1 = fuCounter s1 then getLastFU (seqNum s) s1
           else getMiddleFU (seqNum s) s1)"

text \<open>The caller's loop: one \<^verbatim>\<open>get\<close> per clock reading, in order.\<close>

fun gets :: "packer \<Rightarrow> 32 word list \<Rightarrow> outcome list \<times> packer" where
  "gets s [] = ([], s)"
| "gets s (t # ts) =
     (case get t s of (r, s') \<Rightarrow> (case gets s' ts of (rs, s'') \<Rightarrow> (r # rs, s'')))"

subsection \<open>Reading a packet's fields (the wire format)\<close>

text \<open>Byte 1 holds the marker bit above the payload type, bytes 2 and 3 the sequence number
  and bytes 4 to 7 the timestamp, both big-endian. In a fragment, byte 13 is the FU header
  with the S bit on top and the E bit below it, and the payload starts at byte 14.\<close>

definition pkt_marker :: "byte list \<Rightarrow> bool" where
  "pkt_marker p = bit (p ! 1) 7"

definition pkt_seq :: "byte list \<Rightarrow> 16 word" where
  "pkt_seq p = push_bit 8 (ucast (p ! 2)) OR ucast (p ! 3)"

definition pkt_timestamp :: "byte list \<Rightarrow> 32 word" where
  "pkt_timestamp p =
     push_bit 24 (ucast (p ! 4)) OR push_bit 16 (ucast (p ! 5)) OR push_bit 8 (ucast (p ! 6))
     OR ucast (p ! 7)"

definition fu_S :: "byte list \<Rightarrow> bool" where
  "fu_S p = bit (p ! 13) 7"

definition fu_E :: "byte list \<Rightarrow> bool" where
  "fu_E p = bit (p ! 13) 6"

definition fu_payload :: "byte list \<Rightarrow> byte list" where
  "fu_payload p = drop 14 p"

subsection \<open>The caller's view: a sequence of calls\<close>

datatype call = Put Buffer | Get "32 word"

text \<open>The outcomes of the \<^verbatim>\<open>get\<close> calls of a sequence of calls, in order.\<close>

fun run :: "packer \<Rightarrow> call list \<Rightarrow> outcome list \<times> packer" where
  "run s [] = ([], s)"
| "run s (Put b # cs) = run (put b s) cs"
| "run s (Get t # cs) =
     (case get t s of (r, s') \<Rightarrow> (case run s' cs of (rs, s'') \<Rightarrow> (r # rs, s'')))"

text \<open>The packets among the outcomes, in order.\<close>

fun packets :: "outcome list \<Rightarrow> byte list list" where
  "packets [] = []"
| "packets (Packet p # rs) = p # packets rs"
| "packets (_ # rs) = packets rs"

text \<open>The \<^verbatim>\<open>outSize\<close> that \<^verbatim>\<open>get\<close> computes in a state, if it computes one: the four
  assignments of lines 188, 224, 257 and 285.\<close>

definition computedSize :: "packer \<Rightarrow> int option" where
  "computedSize s =
     (if inBufferComplete s then None
      else if naluComplete s then
        (case getNextNalu s of (ret, s1) \<Rightarrow>
           if ret \<le> 0 then None
           else if len (nalu s1) \<le> maxPacketLength (params s1) then Some (len (nalu s1) + 12)
           else if maxPacketLength (params s1) = 0 then None
           else Some (maxPacketLength (params s1) + 14))
      else if fuIndex s = fuCounter s then Some (lastFuSize s - 1 + 14)
      else Some (maxPacketLength (params s) + 14))"

subsection \<open>Fragments as the code lays them out\<close>

text \<open>Fragment \<open>j\<close> of the current NAL unit with sequence number \<open>sq\<close>, as the three
  fragment branches of \<^verbatim>\<open>get\<close> build it; used to describe the result of a run of calls.\<close>

definition fragment :: "packer \<Rightarrow> int \<Rightarrow> 16 word \<Rightarrow> byte list" where
  "fragment s j sq =
     rtpHeader (j = fuCounter s) sq (tsCurrentSample s) (ssrc (params s))
     @ [fuIndicator (forbiddenBit (nalu s)) (nalRefIdc (nalu s)),
        fuHeader (j = 0) (j = fuCounter s) (nalUnitType (nalu s))]
     @ bytesAt (inBuffer s) (ndata (nalu s) + 1 + j * maxPacketLength (params s))
         (nat (if j = fuCounter s then lastFuSize s - 1 else maxPacketLength (params s)))"

subsection \<open>Example inputs\<close>

text \<open>A buffer holding the given bytes, followed in memory by bytes \<open>0xFF\<close>.\<close>

definition mem_of :: "byte list \<Rightarrow> memory" where
  "mem_of xs i = (if 0 \<le> i \<and> i < int (length xs) then xs ! nat i else 0xFF)"

definition buffer_of :: "byte list \<Rightarrow> Buffer" where
  "buffer_of xs = \<lparr>data = Some (mem_of xs), size = int (length xs)\<rparr>"

text \<open>The defaults of \<^verbatim>\<open>RTPPackerParams\<close>.\<close>

definition default_params :: RTPPackerParams where
  "default_params = \<lparr>maxPacketLength = 1400, ssrc = 1234\<rparr>"

text \<open>A 3-byte start code and a NAL unit of 10 bytes, packed with a maximum payload length
  of 4 (\<open>q = 2\<close>, \<open>r = 2\<close>); the state after \<^verbatim>\<open>put\<close> and the state in which
  \<^verbatim>\<open>getNextNalu\<close> leaves it.\<close>

definition frag_input :: "byte list" where
  "frag_input = [0, 0, 1, 0x65, 1, 2, 3, 4, 5, 6, 7, 8, 9]"

definition frag_state :: packer where
  "frag_state = put (buffer_of frag_input) (new_packer \<lparr>maxPacketLength = 4, ssrc = 1234\<rparr> 0)"

definition frag_selected :: packer where
  "frag_selected = frag_state\<lparr>nextNaluPtr := None,
                    nalu := \<lparr>startCodeLen = 3, ndata = 3, len = 10, forbiddenBit = 0,
                             nalRefIdc = 3, nalUnitType = 5\<rparr>\<rparr>"

text \<open>A 4-byte start code and a NAL unit of 10 bytes under the default parameters.\<close>

definition whole_input :: "byte list" where
  "whole_input = [0, 0, 0, 1, 0x65, 1, 2, 3, 4, 5, 6, 7, 8, 9]"

definition whole_state :: packer where
  "whole_state = put (buffer_of whole_input) (new_packer default_params 0)"

definition whole_selected :: packer where
  "whole_selected = whole_state\<lparr>nextNaluPtr := None,
                    nalu := \<lparr>startCodeLen = 4, ndata = 4, len = 10, forbiddenBit = 0,
                             nalRefIdc = 3, nalUnitType = 5\<rparr>\<rparr>"

text \<open>A NAL unit of 8 bytes with a maximum payload length of 4 (\<open>q = 2\<close>, \<open>r = 0\<close>).\<close>

definition exact_input :: "byte list" where
  "exact_input = [0, 0, 1, 0x65, 1, 2, 3, 4, 5, 6, 7]"

definition exact_state :: packer where
  "exact_state = put (buffer_of exact_input) (new_packer \<lparr>maxPacketLength = 4, ssrc = 1234\<rparr> 0)"

definition exact_selected :: packer where
  "exact_selected = exact_state\<lparr>nextNaluPtr := None,
                    nalu := \<lparr>startCodeLen = 3, ndata = 3, len = 8, forbiddenBit = 0,
                             nalRefIdc = 3, nalUnitType = 5\<rparr>\<rparr>"

text \<open>A 3-byte start code and a NAL unit of 10229 bytes \<open>0x41\<close>, under a maximum payload
  length of 20000: with its 12 header bytes the packet would have 10241 bytes.\<close>

definition big_mem :: memory where
  "big_mem i = (if i = 2 then 1 else if 0 \<le> i \<and> i < 2 then 0 else 0x41)"

definition big_buffer :: Buffer where
  "big_buffer = \<lparr>data = Some big_mem, size = 10232\<rparr>"

definition big_params :: RTPPackerParams where
  "big_params = \<lparr>maxPacketLength = 20000, ssrc = 1234\<rparr>"

definition big_state :: packer where
  "big_state = put big_buffer (new_packer big_params 0)"

text \<open>Three buffers in a row, the second with the NAL unit that does not fit.\<close>

definition overflow_calls :: "call list" where
  "overflow_calls =
     [Put (buffer_of whole_input), Get 0, Put big_buffer, Get 0, Put (buffer_of whole_input), Get 0]"

text \<open>Two buffers of one small NAL unit each, the first drained to exhaustion.\<close>

definition steady_calls :: "call list" where
  "steady_calls = [Put (buffer_of whole_input), Get 0, Get 1, Put (buffer_of whole_input), Get 2]"

text \<open>What holds in every state reached from the constructor: the parameters are the ones
  given to it, and while a NAL unit is being fragmented the size of its last fragment is
  between 1 and the maximum payload length.\<close>

definition fragmenting_ok :: "RTPPackerParams \<Rightarrow> packer \<Rightarrow> bool" where
  "fragmenting_ok ps s \<longleftrightarrow>
     params s = ps \<and>
     (naluComplete s \<or> (1 \<le> lastFuSize s \<and> lastFuSize s \<le> maxPacketLength ps))"

text \<open>The first two of the three fragments of \<open>frag_input\<close> have been sent.\<close>

definition two_fragments_sent :: "call list" where
  "two_fragments_sent = [Put (buffer_of frag_input), Get 0, Get 1]"

section \<open>Bytes and header fields\<close>

lemma masks:
  "(0x1f :: byte) = mask 5" "(0x60 :: byte) = push_bit 5 (mask 2)" "(0x80 :: byte) = push_bit 7 (mask 1)"
  "(0x7f :: byte) = mask 7" "(3 :: byte) = mask 2" "(1 :: byte) = mask 1" "(28 :: byte) = push_bit 2 (mask 3)"
  by (simp_all add: mask_eq_exp_minus_1)

lemma naluHeader_roundtrip:
  "naluHeader (uint (drop_bit 7 (b AND 0x80))) (uint (drop_bit 5 (b AND 0x60))) (uint (b AND 0x1f)) = b"
  unfolding naluHeader_def masks
  apply (rule bit_word_eqI)
  subgoal for n
    by (cases "n < 5"; cases "n < 7"; cases "n = 7"; simp add: bit_simps; (auto; arith)?)
  done

lemma be16_rd: "push_bit 8 (ucast (ucast (drop_bit 8 w) :: byte)) OR ucast (ucast w :: byte) = (w :: 16 word)"
  apply (rule bit_word_eqI)
  subgoal for n
    by (cases "n < 8"; simp add: bit_simps; (auto; arith)?)
  done

lemma be32_rd: "push_bit 24 (ucast (ucast (drop_bit 24 w) :: byte)) OR push_bit 16 (ucast (ucast (drop_bit 16 w) :: byte)) OR push_bit 8 (ucast (ucast (drop_bit 8 w) :: byte)) OR ucast (ucast w :: byte) = (w :: 32 word)"
  apply (rule bit_word_eqI)
  subgoal for n
    by (cases "n < 8"; cases "n < 16"; cases "n < 24"; simp add: bit_simps; (auto; arith)?)
  done

lemma marker_bit: "bit ((word_of_int H264_PAYLOAD_TYPE AND 0x7f) OR push_bit 7 (of_bool mk) :: byte) 7 = mk"
  unfolding masks by (auto simp: bit_simps H264_PAYLOAD_TYPE_def)

lemma fuHeader_S: "bit (fuHeader s e t) 7 = s"
  unfolding fuHeader_def masks by (auto simp: bit_simps)

lemma fuHeader_E: "bit (fuHeader s e t) 6 = e"
  unfolding fuHeader_def masks by (auto simp: bit_simps)

section \<open>One call and runs of calls\<close>

lemma length_rtpHeader [simp]: "length (rtpHeader mk sq ts sc) = 12"
  by (simp add: rtpHeader_def be16_def be32_def)

lemma length_bytesAt [simp]: "length (bytesAt m p n) = n"
  by (simp add: bytesAt_def)

lemma outView_exact: "int (length w) = n \<Longrightarrow> outView w n = w"
  by (auto simp: outView_def)

lemma c_div_mod_pos: "0 \<le> a \<Longrightarrow> 0 < b \<Longrightarrow> c_div a b = a div b \<and> c_mod a b = a mod b"
  by (cases "a = 0") (auto simp: c_div_def c_mod_def minus_mult_div_eq_mod)

lemma fragment_upd [simp]:
  "fragment (s\<lparr>fuIndex := i\<rparr>) = fragment s"
  "fragment (s\<lparr>seqNum := q\<rparr>) = fragment s"
  "fragment (s\<lparr>naluComplete := b\<rparr>) = fragment s"
  by (simp_all add: fragment_def fun_eq_iff)

lemma get_middle:
  assumes "\<not> inBufferComplete s" "\<not> naluComplete s"
    and "0 \<le> maxPacketLength (params s)" "maxPacketLength (params s) + 14 \<le> MAX_OUTBUF_SIZE"
    and "0 < fuIndex s" "fuIndex s < fuCounter s"
  shows "get t s = (Packet (fragment s (fuIndex s) (seqNum s)),
                    s\<lparr>seqNum := seqNum s + 1, fuIndex := fuIndex s + 1\<rparr>)"
  using assms
  by (simp add: get_def getMiddleFU_def Let_def memcpy_def fragment_def outView_exact)

lemma get_last:
  assumes "\<not> inBufferComplete s" "\<not> naluComplete s"
    and "1 \<le> lastFuSize s" "lastFuSize s + 13 \<le> MAX_OUTBUF_SIZE"
    and "0 < fuIndex s" "fuIndex s = fuCounter s"
  shows "get t s = (Packet (fragment s (fuIndex s) (seqNum s)),
                    s\<lparr>seqNum := seqNum s + 1, naluComplete := True, fuIndex := 0\<rparr>)"
  using assms
  by (simp add: get_def getLastFU_def Let_def memcpy_def fragment_def outView_exact)

lemma gets_middle:
  assumes "\<not> inBufferComplete s" "\<not> naluComplete s"
    and "0 \<le> maxPacketLength (params s)" "maxPacketLength (params s) + 14 \<le> MAX_OUTBUF_SIZE"
    and "0 < fuIndex s" "fuIndex s + int (length clocks) \<le> fuCounter s"
  shows "gets s clocks =
           (map (\<lambda>k. Packet (fragment s (fuIndex s + int k) (seqNum s + of_nat k))) [0..<length clocks],
            s\<lparr>seqNum := seqNum s + of_nat (length clocks), fuIndex := fuIndex s + int (length clocks)\<rparr>)"
  using assms
proof (induction clocks arbitrary: s)
  case Nil
  then show ?case by simp
next
  case (Cons t ts)
  let ?s' = "s\<lparr>seqNum := seqNum s + 1, fuIndex := fuIndex s + 1\<rparr>"
  have g: "get t s = (Packet (fragment s (fuIndex s) (seqNum s)), ?s')"
    using Cons.prems by (intro get_middle) auto
  have ih: "gets ?s' ts =
           (map (\<lambda>k. Packet (fragment ?s' (fuIndex ?s' + int k) (seqNum ?s' + of_nat k))) [0..<length ts],
            ?s'\<lparr>seqNum := seqNum ?s' + of_nat (length ts), fuIndex := fuIndex ?s' + int (length ts)\<rparr>)"
    using Cons.prems by (intro Cons.IH) auto
  have m: "map (\<lambda>k. Packet (fragment s (fuIndex s + int k) (seqNum s + of_nat k))) [0..<length (t # ts)]
         = Packet (fragment s (fuIndex s) (seqNum s))
           # map (\<lambda>k. Packet (fragment s (fuIndex s + 1 + int k) (seqNum s + 1 + of_nat k))) [0..<length ts]"
    by (simp add: upt_conv_Cons map_Suc_upt [symmetric] del: upt_Suc add: o_def algebra_simps)
  have "gets s (t # ts) = (Packet (fragment s (fuIndex s) (seqNum s)) # fst (gets ?s' ts), snd (gets ?s' ts))"
    by (simp add: g split: prod.split)
  also have "\<dots> = (map (\<lambda>k. Packet (fragment s (fuIndex s + int k) (seqNum s + of_nat k))) [0..<length (t # ts)],
            s\<lparr>seqNum := seqNum s + of_nat (length (t # ts)), fuIndex := fuIndex s + int (length (t # ts))\<rparr>)"
    unfolding m ih by (simp add: add.assoc add.commute)
  finally show ?case .
qed


lemma gets_append:
  "gets s (xs @ ys) = (case gets s xs of (a, s') \<Rightarrow> (case gets s' ys of (b, s'') \<Rightarrow> (a @ b, s'')))"
  by (induction xs arbitrary: s) (auto split: prod.splits)

lemma findNext_fst_gt: "p < fst (findNext m sz p)"
proof (induction m sz p rule: findNext.induct)
  case (1 m sz p)
  show ?case
    using 1 by (subst findNext.simps) (auto simp: Let_def)
qed

lemma selectNalu_frame:
  "params (selectNalu s cur scl) = params s"
  "seqNum (selectNalu s cur scl) = seqNum s"
  "inBuffer (selectNalu s cur scl) = inBuffer s"
  "inBufferSize (selectNalu s cur scl) = inBufferSize s"
  "inBufferComplete (selectNalu s cur scl) = inBufferComplete s"
  "naluComplete (selectNalu s cur scl) = naluComplete s"
  "tsStartMillisec (selectNalu s cur scl) = tsStartMillisec s"
  "tsCurrentSample (selectNalu s cur scl) = tsCurrentSample s"
  "fuCounter (selectNalu s cur scl) = fuCounter s"
  "lastFuSize (selectNalu s cur scl) = lastFuSize s"
  "fuIndex (selectNalu s cur scl) = fuIndex s"
  by (simp_all add: selectNalu_def Let_def split: prod.split)

lemma selectNalu_len: "1 \<le> len (nalu (selectNalu s cur scl))"
  using findNext_fst_gt [of "cur + scl" "inBuffer s" "inBufferSize s"]
  by (auto simp: selectNalu_def Let_def split: prod.split)

lemma getNextNalu_frame:
  assumes "getNextNalu s = (r, s1)"
  shows "params s1 = params s" "seqNum s1 = seqNum s" "inBuffer s1 = inBuffer s"
    "inBufferSize s1 = inBufferSize s"
    "inBufferComplete s1 = inBufferComplete s" "naluComplete s1 = naluComplete s"
    "tsStartMillisec s1 = tsStartMillisec s" "tsCurrentSample s1 = tsCurrentSample s"
    "fuCounter s1 = fuCounter s" "lastFuSize s1 = lastFuSize s" "fuIndex s1 = fuIndex s"
  using assms
  by (auto simp: getNextNalu_def selectNalu_frame split: option.splits if_splits)

lemma getNextNalu_len:
  assumes "getNextNalu s = (r, s1)" "0 < r"
  shows "1 \<le> len (nalu s1)"
  using assms
  by (auto simp: getNextNalu_def selectNalu_len split: option.splits if_splits)

lemma getNextNalu_fail:
  assumes "getNextNalu s = (r, s1)" "r \<le> 0"
  shows "s1 = s"
  using assms
  by (auto simp: getNextNalu_def split: option.splits if_splits)

lemma planFragments_frame:
  "params (planFragments s) = params s"
  "seqNum (planFragments s) = seqNum s"
  "inBuffer (planFragments s) = inBuffer s"
  "inBufferComplete (planFragments s) = inBufferComplete s"
  "naluComplete (planFragments s) = naluComplete s"
  "tsCurrentSample (planFragments s) = tsCurrentSample s"
  "nalu (planFragments s) = nalu s"
  "fuIndex (planFragments s) = 0"
  by (simp_all add: planFragments_def Let_def)

lemma planFragments_counts:
  assumes "0 < maxPacketLength (params s)" "maxPacketLength (params s) < len (nalu s)"
  shows "fuCounter (planFragments s) =
           (if len (nalu s) mod maxPacketLength (params s) = 0
            then len (nalu s) div maxPacketLength (params s) - 1
            else len (nalu s) div maxPacketLength (params s))"
    and "lastFuSize (planFragments s) =
           (if len (nalu s) mod maxPacketLength (params s) = 0
            then maxPacketLength (params s)
            else len (nalu s) mod maxPacketLength (params s))"
  using assms c_div_mod_pos [of "len (nalu s)" "maxPacketLength (params s)"]
  by (simp_all add: planFragments_def Let_def)

lemma div_ge_1: "0 < (b::int) \<Longrightarrow> b \<le> a \<Longrightarrow> 1 \<le> a div b"
  by (simp add: pos_imp_zdiv_pos_iff Suc_le_eq int_one_le_iff_zero_less)

lemma div_ge_2: "0 < (b::int) \<Longrightarrow> b < a \<Longrightarrow> a mod b = 0 \<Longrightarrow> 2 \<le> a div b"
proof -
  assume b: "0 < b" and ab: "b < a" and m: "a mod b = 0"
  have "a = b * (a div b)" using m by (metis mult_div_mod_eq add.right_neutral)
  then have "b * 1 < b * (a div b)" using ab by simp
  then have "1 < a div b" using b by (simp only: mult_less_cancel_left_pos)
  then show ?thesis by simp
qed

lemma planFragments_bounds:
  assumes "0 < maxPacketLength (params s)" "maxPacketLength (params s) < len (nalu s)"
  shows "1 \<le> fuCounter (planFragments s)"
    and "1 \<le> lastFuSize (planFragments s)"
    and "lastFuSize (planFragments s) \<le> maxPacketLength (params s)"
    and "fuCounter (planFragments s) * maxPacketLength (params s) + lastFuSize (planFragments s)
           = len (nalu s)"
proof -
  let ?b = "maxPacketLength (params s)" and ?a = "len (nalu s)"
  have m: "0 \<le> ?a mod ?b" "?a mod ?b < ?b" using assms by simp_all
  show "1 \<le> fuCounter (planFragments s)"
    using assms div_ge_1 [of ?b ?a] div_ge_2 [of ?b ?a]
    by (auto simp: planFragments_counts)
  show "1 \<le> lastFuSize (planFragments s)"
    using assms m by (auto simp: planFragments_counts)
  show "lastFuSize (planFragments s) \<le> ?b"
    using assms m by (auto simp: planFragments_counts)
  have "?a div ?b * ?b + ?a mod ?b = ?a" by simp
  then show "fuCounter (planFragments s) * ?b + lastFuSize (planFragments s) = ?a"
    using assms by (auto simp: planFragments_counts algebra_simps)
qed

lemma get_first:
  assumes "\<not> inBufferComplete s" "naluComplete s" "getNextNalu s = (1, s1)"
    and "0 < maxPacketLength (params s)" "maxPacketLength (params s) < len (nalu s1)"
    and "maxPacketLength (params s) + 14 \<le> MAX_OUTBUF_SIZE"
    and "s3 = planFragments (s1\<lparr>seqNum := seqNum s1 + 1,
                                   tsCurrentSample := sampleTime (tsStartMillisec s1) t\<rparr>)"
  shows "get t s = (Packet (fragment s3 0 (seqNum s)), s3\<lparr>naluComplete := False, fuIndex := 1\<rparr>)"
proof -
  let ?s2 = "s1\<lparr>seqNum := seqNum s1 + 1, tsCurrentSample := sampleTime (tsStartMillisec s1) t\<rparr>"
  have p: "params s1 = params s" and q: "seqNum s1 = seqNum s"
    using getNextNalu_frame [OF assms(3)] by simp_all
  have c: "1 \<le> fuCounter (planFragments ?s2)"
    using planFragments_bounds(1) [of ?s2] assms(4,5) p by simp
  show ?thesis
    using assms(1,2,4,5,6) c p q unfolding assms(7)
    by (simp add: get_def assms(3) getFirstFU_def Let_def memcpy_def fragment_def outView_exact
        planFragments_frame)
qed

section \<open>Exhaustion\<close>

lemma gets_drained:
  "inBufferComplete s \<Longrightarrow> gets s clocks = (replicate (length clocks) Nothing, s)"
  by (induction clocks) (simp_all add: get_def)

text \<open>
  Claim C9. On a freshly constructed packetizer, before any \<^verbatim>\<open>put\<close>, the first \<^verbatim>\<open>get\<close> and
  every further \<^verbatim>\<open>get\<close> return nothing, none raises, and the sequence number stays
  what it was.
\<close>

theorem get_before_put:
  "gets (new_packer ps t0) (t # clocks) =
     (replicate (Suc (length clocks)) Nothing, (new_packer ps t0)\<lparr>inBufferComplete := True\<rparr>)
   \<and> seqNum (snd (gets (new_packer ps t0) (t # clocks))) = seqNum (new_packer ps t0)"
proof -
  have "get t (new_packer ps t0) = (Nothing, (new_packer ps t0)\<lparr>inBufferComplete := True\<rparr>)"
    by (simp add: get_def new_packer_def getNextNalu_def)
  then show ?thesis
    by (simp add: gets_drained)
qed

text \<open>
  Claim C8. When \<^verbatim>\<open>get\<close> looks for the next NAL unit and there is neither a 3-byte nor a
  4-byte start code at the scan position, it returns nothing without an error and marks
  the buffer drained; every later \<^verbatim>\<open>get\<close> returns nothing too, until a \<^verbatim>\<open>put\<close> clears
  the drained flag.
\<close>

theorem no_start_code_drains:
  assumes "\<not> inBufferComplete s" "naluComplete s" "nextNaluPtr s = Some p"
    and "\<not> isStartCode3 (inBuffer s) p" "\<not> isStartCode4 (inBuffer s) p"
  shows "gets s (t # clocks) =
           (replicate (Suc (length clocks)) Nothing, s\<lparr>inBufferComplete := True\<rparr>)
         \<and> \<not> inBufferComplete (put b (snd (gets s (t # clocks))))"
proof -
  have "get t s = (Nothing, s\<lparr>inBufferComplete := True\<rparr>)"
    using assms by (simp add: get_def getNextNalu_def)
  then show ?thesis
    by (simp add: gets_drained put_def)
qed

theorem no_start_code_drains_witness:
  "gets (put (buffer_of [0x41, 0x42, 0x43, 0x44]) (new_packer default_params 0)) [5, 6, 7] =
     ([Nothing, Nothing, Nothing],
      (put (buffer_of [0x41, 0x42, 0x43, 0x44]) (new_packer default_params 0))\<lparr>inBufferComplete := True\<rparr>)"
proof -
  let ?s = "put (buffer_of [0x41, 0x42, 0x43, 0x44]) (new_packer default_params 0)"
  have h: "\<not> inBufferComplete ?s" "naluComplete ?s" "nextNaluPtr ?s = Some 0"
    "\<not> isStartCode3 (inBuffer ?s) 0" "\<not> isStartCode4 (inBuffer ?s) 0"
    by (simp_all add: put_def buffer_of_def new_packer_def mem_of_def isStartCode3_def isStartCode4_def)
  show ?thesis
    using no_start_code_drains [OF h, of 5 "[6, 7]"] by simp
qed

section \<open>A fragmented NAL unit\<close>

lemma gets_snoc:
  "gets s (xs @ [t]) = (case gets s xs of (a, s') \<Rightarrow> (case get t s' of (r, s'') \<Rightarrow> (a @ [r], s'')))"
  by (simp add: gets_append split: prod.splits)

lemma gets_Cons_alt:
  "gets s (t # cs) = (fst (get t s) # fst (gets (snd (get t s)) cs), snd (gets (snd (get t s)) cs))"
  by (simp split: prod.splits)

lemma gets_snoc_alt:
  "gets s (xs @ [t]) = (fst (gets s xs) @ [fst (get t (snd (gets s xs)))], snd (get t (snd (gets s xs))))"
  by (simp add: gets_snoc split: prod.splits)

lemma map_upt_ends:
  "map f [0..<Suc (Suc n)] = f 0 # map (\<lambda>k. f (Suc k)) [0..<n] @ [f (Suc n)]"
proof -
  have "[0..<Suc (Suc n)] = [0..<Suc n] @ [Suc n]" by simp
  also have "[0..<Suc n] = 0 # [Suc 0..<Suc n]" by (rule upt_conv_Cons) simp
  also have "[Suc 0..<Suc n] = map Suc [0..<n]" by (simp only: map_Suc_upt)
  finally show ?thesis by (simp add: o_def del: upt_Suc)
qed

lemma gets_fragmented:
  assumes "\<not> inBufferComplete s" "naluComplete s" "getNextNalu s = (1, s1)"
    and "0 < maxPacketLength (params s)" "maxPacketLength (params s) < len (nalu s1)"
    and "maxPacketLength (params s) + 14 \<le> MAX_OUTBUF_SIZE"
    and "s3 = planFragments (s1\<lparr>seqNum := seqNum s1 + 1,
                                   tsCurrentSample := sampleTime (tsStartMillisec s1) t\<rparr>)"
    and "int (length clocks) = fuCounter s3"
  shows "gets s (t # clocks) =
           (map (\<lambda>k. Packet (fragment s3 (int k) (seqNum s + of_nat k))) [0..<Suc (length clocks)],
            s3\<lparr>seqNum := seqNum s + of_nat (Suc (length clocks)), naluComplete := True, fuIndex := 0\<rparr>)"
proof -
  let ?s2 = "s1\<lparr>seqNum := seqNum s1 + 1, tsCurrentSample := sampleTime (tsStartMillisec s1) t\<rparr>"
  let ?mx = "maxPacketLength (params s)"
  have p: "params s1 = params s" and q: "seqNum s1 = seqNum s"
    and ibc: "inBufferComplete s1 = inBufferComplete s"
    using getNextNalu_frame [OF assms(3)] by simp_all
  have b: "1 \<le> fuCounter s3" "1 \<le> lastFuSize s3" "lastFuSize s3 \<le> ?mx"
    using planFragments_bounds [of ?s2] assms(4,5) p unfolding assms(7) by simp_all
  have f3: "params s3 = params s" "seqNum s3 = seqNum s + 1" "inBufferComplete s3 = inBufferComplete s"
    unfolding assms(7) by (simp_all add: planFragments_frame p q ibc)
  obtain ys tl where cl: "clocks = ys @ [tl]"
    using b(1) assms(8) by (cases clocks rule: rev_cases) auto
  have ly: "int (length ys) + 1 = fuCounter s3"
    using assms(8) cl by simp
  let ?sA = "s3\<lparr>naluComplete := False, fuIndex := 1\<rparr>"
  have g1: "get t s = (Packet (fragment s3 0 (seqNum s)), ?sA)"
    by (rule get_first [OF assms(1-7)])
  let ?sB = "?sA\<lparr>seqNum := seqNum ?sA + of_nat (length ys), fuIndex := fuIndex ?sA + int (length ys)\<rparr>"
  have g2: "gets ?sA ys =
      (map (\<lambda>k. Packet (fragment ?sA (fuIndex ?sA + int k) (seqNum ?sA + of_nat k))) [0..<length ys], ?sB)"
    using assms(1,4,6) f3 ly by (intro gets_middle) auto
  have g3: "get tl ?sB = (Packet (fragment ?sB (fuIndex ?sB) (seqNum ?sB)),
                    ?sB\<lparr>seqNum := seqNum ?sB + 1, naluComplete := True, fuIndex := 0\<rparr>)"
    using assms(1,6) f3 b ly by (intro get_last) auto
  have "gets s (t # clocks) =
      (Packet (fragment s3 0 (seqNum s))
        # map (\<lambda>k. Packet (fragment ?sA (fuIndex ?sA + int k) (seqNum ?sA + of_nat k))) [0..<length ys]
        @ [Packet (fragment ?sB (fuIndex ?sB) (seqNum ?sB))],
       ?sB\<lparr>seqNum := seqNum ?sB + 1, naluComplete := True, fuIndex := 0\<rparr>)"
    unfolding cl by (simp only: gets_Cons_alt gets_snoc_alt g1 g2 g3 fst_conv snd_conv append_Cons)
  also have "\<dots> = (map (\<lambda>k. Packet (fragment s3 (int k) (seqNum s + of_nat k))) [0..<Suc (length clocks)],
            s3\<lparr>seqNum := seqNum s + of_nat (Suc (length clocks)), naluComplete := True, fuIndex := 0\<rparr>)"
    unfolding cl length_append list.size Nat.add_0_right add_Suc_right map_upt_ends
    by (simp add: f3 add.assoc add.commute add.left_commute del: upt_Suc)
  finally show ?thesis .
qed

lemma bytesAt_append: "bytesAt m p (a + b) = bytesAt m p a @ bytesAt m (p + int a) b"
  by (auto simp: bytesAt_def list_eq_iff_nth_eq nth_append add.assoc)

lemma bytesAt_chunks:
  "concat (map (\<lambda>k. bytesAt m (p + int k * int n) n) [0..<c]) = bytesAt m p (c * n)"
proof (induction c)
  case 0
  then show ?case by (simp add: bytesAt_def)
next
  case (Suc c)
  have "bytesAt m p (c * n + n) = bytesAt m p (c * n) @ bytesAt m (p + int (c * n)) n"
    by (rule bytesAt_append)
  with Suc show ?case
    by (simp add: add.commute)
qed

lemma rtpHeader_nth:
  "(rtpHeader mk sq ts sc @ rest) ! 1 = (word_of_int H264_PAYLOAD_TYPE AND 0x7f) OR push_bit 7 (of_bool mk)"
  "(rtpHeader mk sq ts sc @ rest) ! 2 = ucast (drop_bit 8 sq)"
  "(rtpHeader mk sq ts sc @ rest) ! 3 = ucast sq"
  "(rtpHeader mk sq ts sc @ rest) ! 4 = ucast (drop_bit 24 ts)"
  "(rtpHeader mk sq ts sc @ rest) ! 5 = ucast (drop_bit 16 ts)"
  "(rtpHeader mk sq ts sc @ rest) ! 6 = ucast (drop_bit 8 ts)"
  "(rtpHeader mk sq ts sc @ rest) ! 7 = ucast ts"
  by (simp_all add: rtpHeader_def be16_def be32_def)

lemma pkt_marker_rtpHeader [simp]: "pkt_marker (rtpHeader mk sq ts sc @ rest) = mk"
  by (simp only: pkt_marker_def rtpHeader_nth marker_bit)

lemma pkt_seq_rtpHeader [simp]: "pkt_seq (rtpHeader mk sq ts sc @ rest) = sq"
  by (simp only: pkt_seq_def rtpHeader_nth be16_rd)

lemma pkt_timestamp_rtpHeader [simp]: "pkt_timestamp (rtpHeader mk sq ts sc @ rest) = ts"
  by (simp only: pkt_timestamp_def rtpHeader_nth be32_rd)

lemma rtpHeader_nth_after:
  "(rtpHeader mk sq ts sc @ rest) ! (12 + k) = rest ! k"
  "(rtpHeader mk sq ts sc @ rest) ! 12 = rest ! 0"
  "(rtpHeader mk sq ts sc @ rest) ! 13 = rest ! 1"
  "drop 14 (rtpHeader mk sq ts sc @ a # b # rest') = rest'"
  by (simp_all add: nth_append)

lemma fragment_fields [simp]:
  "pkt_marker (fragment s j sq) = (j = fuCounter s)"
  "pkt_seq (fragment s j sq) = sq"
  "pkt_timestamp (fragment s j sq) = tsCurrentSample s"
  "fu_S (fragment s j sq) = (j = 0)"
  "fu_E (fragment s j sq) = (j = fuCounter s)"
  "fu_payload (fragment s j sq) =
     bytesAt (inBuffer s) (ndata (nalu s) + 1 + j * maxPacketLength (params s))
       (nat (if j = fuCounter s then lastFuSize s - 1 else maxPacketLength (params s)))"
  "length (fragment s j sq) =
     14 + nat (if j = fuCounter s then lastFuSize s - 1 else maxPacketLength (params s))"
  by (simp_all add: fragment_def fu_S_def fu_E_def fu_payload_def rtpHeader_nth_after
      fuHeader_S fuHeader_E)

lemma frag_state_select:
  "getNextNalu frag_state = (1, frag_selected)"
  by (simp add: frag_selected_def frag_state_def frag_input_def put_def buffer_of_def new_packer_def getNextNalu_def
      selectNalu_def isStartCode3_def isStartCode4_def mem_of_def findNext.simps Let_def)

lemma frag_state_facts:
  "\<not> inBufferComplete frag_state" "naluComplete frag_state"
  "maxPacketLength (params frag_state) = 4" "len (nalu frag_selected) = 10"
  by (simp_all add: frag_selected_def frag_state_def put_def new_packer_def)

lemma fragmented_run:
  assumes "\<not> inBufferComplete s" "naluComplete s" "getNextNalu s = (1, s1)"
    and "0 < maxPacketLength (params s)" "maxPacketLength (params s) < len (nalu s1)"
    and "maxPacketLength (params s) + 14 \<le> MAX_OUTBUF_SIZE"
    and "int (length (t # clocks)) =
           (if len (nalu s1) mod maxPacketLength (params s) = 0
            then len (nalu s1) div maxPacketLength (params s)
            else len (nalu s1) div maxPacketLength (params s) + 1)"
  shows "\<exists>s3. gets s (t # clocks) =
           (map Packet (map (\<lambda>k. fragment s3 (int k) (seqNum s + of_nat k)) [0..<Suc (length clocks)]),
            s3\<lparr>seqNum := seqNum s + of_nat (Suc (length clocks)), naluComplete := True, fuIndex := 0\<rparr>)
         \<and> fuCounter s3 = int (length clocks)
         \<and> lastFuSize s3 = (if len (nalu s1) mod maxPacketLength (params s) = 0
                             then maxPacketLength (params s)
                             else len (nalu s1) mod maxPacketLength (params s))
         \<and> 1 \<le> lastFuSize s3
         \<and> int (length clocks) * maxPacketLength (params s) + lastFuSize s3 = len (nalu s1)
         \<and> inBuffer s3 = inBuffer s \<and> nalu s3 = nalu s1 \<and> params s3 = params s
         \<and> tsCurrentSample s3 = sampleTime (tsStartMillisec s) t"
proof -
  let ?s2 = "s1\<lparr>seqNum := seqNum s1 + 1, tsCurrentSample := sampleTime (tsStartMillisec s1) t\<rparr>"
  let ?s3 = "planFragments ?s2"
  have fr: "params s1 = params s" "inBuffer s1 = inBuffer s" "tsStartMillisec s1 = tsStartMillisec s"
    using getNextNalu_frame [OF assms(3)] by simp_all
  have h: "0 < maxPacketLength (params ?s2)" "maxPacketLength (params ?s2) < len (nalu ?s2)"
    using assms(4,5) fr by simp_all
  have c: "fuCounter ?s3 = int (length clocks)"
    using assms(7) planFragments_counts(1) [OF h] by (simp add: fr split: if_splits)
  have l: "lastFuSize ?s3 = (if len (nalu s1) mod maxPacketLength (params s) = 0
                             then maxPacketLength (params s)
                             else len (nalu s1) mod maxPacketLength (params s))"
    using planFragments_counts(2) [OF h] by (simp add: fr)
  have tot: "int (length clocks) * maxPacketLength (params s) + lastFuSize ?s3 = len (nalu s1)"
    using planFragments_bounds(4) [OF h] c fr by simp
  have g: "gets s (t # clocks) =
           (map (\<lambda>k. Packet (fragment ?s3 (int k) (seqNum s + of_nat k))) [0..<Suc (length clocks)],
            ?s3\<lparr>seqNum := seqNum s + of_nat (Suc (length clocks)), naluComplete := True, fuIndex := 0\<rparr>)"
    by (rule gets_fragmented [OF assms(1-6) refl]) (simp add: c)
  have l1: "1 \<le> lastFuSize ?s3"
    by (rule planFragments_bounds(2) [OF h])
  have g': "gets s (t # clocks) =
           (map Packet (map (\<lambda>k. fragment ?s3 (int k) (seqNum s + of_nat k)) [0..<Suc (length clocks)]),
            ?s3\<lparr>seqNum := seqNum s + of_nat (Suc (length clocks)), naluComplete := True, fuIndex := 0\<rparr>)"
    unfolding g by (simp add: o_def)
  have fr3: "inBuffer ?s3 = inBuffer s" "nalu ?s3 = nalu s1" "params ?s3 = params s"
    "tsCurrentSample ?s3 = sampleTime (tsStartMillisec s) t"
    by (simp_all add: planFragments_frame fr)
  from g' c l l1 tot fr3 show ?thesis
    by blast
qed

lemma map_eq_last_only:
  "map (\<lambda>k. int k = int n) [0..<Suc n] = replicate n False @ [True]"
  by (simp add: list_eq_iff_nth_eq nth_append)

lemma map_eq_first_only:
  "map (\<lambda>k. int k = 0) [0..<Suc n] = True # replicate n False"
  by (simp add: list_eq_iff_nth_eq nth_append nth_Cons split: nat.split) 

text \<open>
  Claim C2. For a NAL unit that \<^verbatim>\<open>get\<close> emits as FU-A fragments (it is longer than the
  maximum payload length, and the first fragment fits the scratch buffer), the payloads of
  its fragments, each without the 12-byte RTP header and the 2 FU bytes, put together in
  the order of emission are the bytes 1 to \<open>len - 1\<close> of the NAL unit: the unit without
  its header byte.
\<close>

theorem fragments_reassemble:
  assumes "\<not> inBufferComplete s" "naluComplete s" "getNextNalu s = (1, s1)"
    and "0 < maxPacketLength (params s)" "maxPacketLength (params s) < len (nalu s1)"
    and "maxPacketLength (params s) + 14 \<le> MAX_OUTBUF_SIZE"
    and "int (length (t # clocks)) =
           (if len (nalu s1) mod maxPacketLength (params s) = 0
            then len (nalu s1) div maxPacketLength (params s)
            else len (nalu s1) div maxPacketLength (params s) + 1)"
  shows "\<exists>pkts s'. gets s (t # clocks) = (map Packet pkts, s') \<and> naluComplete s' \<and>
           concat (map fu_payload pkts) =
             bytesAt (inBuffer s) (ndata (nalu s1) + 1) (nat (len (nalu s1) - 1))"
proof -
  let ?mx = "maxPacketLength (params s)" and ?n = "length clocks"
  obtain s3 where g: "gets s (t # clocks) =
           (map Packet (map (\<lambda>k. fragment s3 (int k) (seqNum s + of_nat k)) [0..<Suc ?n]),
            s3\<lparr>seqNum := seqNum s + of_nat (Suc ?n), naluComplete := True, fuIndex := 0\<rparr>)"
    and c: "fuCounter s3 = int ?n"
    and l: "lastFuSize s3 = (if len (nalu s1) mod ?mx = 0 then ?mx else len (nalu s1) mod ?mx)"
    and l1: "1 \<le> lastFuSize s3"
    and tot: "int ?n * ?mx + lastFuSize s3 = len (nalu s1)"
    and fr: "inBuffer s3 = inBuffer s" "nalu s3 = nalu s1" "params s3 = params s"
    using fragmented_run [OF assms] by blast
  let ?p = "ndata (nalu s1) + 1"
  have mid: "concat (map (\<lambda>k. fu_payload (fragment s3 (int k) (seqNum s + of_nat k))) [0..<?n])
           = bytesAt (inBuffer s) ?p (?n * nat ?mx)"
  proof -
    have "map (\<lambda>k. fu_payload (fragment s3 (int k) (seqNum s + of_nat k))) [0..<?n]
        = map (\<lambda>k. bytesAt (inBuffer s) (?p + int k * int (nat ?mx)) (nat ?mx)) [0..<?n]"
      using assms(4) by (simp add: c fr)
    then show ?thesis by (simp only: bytesAt_chunks)
  qed
  have lst: "fu_payload (fragment s3 (int ?n) (seqNum s + of_nat ?n))
           = bytesAt (inBuffer s) (?p + int (?n * nat ?mx)) (nat (lastFuSize s3 - 1))"
    using assms(4) by (simp add: c fr)
  have sz: "?n * nat ?mx + nat (lastFuSize s3 - 1) = nat (len (nalu s1) - 1)"
  proof -
    have "int (?n * nat ?mx + nat (lastFuSize s3 - 1)) = len (nalu s1) - 1"
      using tot l1 assms(4) by simp
    then show ?thesis by (metis nat_int)
  qed
  let ?pk = "map (\<lambda>k. fragment s3 (int k) (seqNum s + of_nat k)) [0..<Suc ?n]"
  let ?s' = "s3\<lparr>seqNum := seqNum s + of_nat (Suc ?n), naluComplete := True, fuIndex := 0\<rparr>"
  have cc: "concat (map fu_payload ?pk) = bytesAt (inBuffer s) ?p (nat (len (nalu s1) - 1))"
    unfolding sz [symmetric] bytesAt_append
    by (simp add: mid lst o_def del: fragment_fields)
  show ?thesis
  proof (intro exI conjI)
    show "gets s (t # clocks) = (map Packet ?pk, ?s')" by (rule g)
    show "naluComplete ?s'" by simp
    show "concat (map fu_payload ?pk) = bytesAt (inBuffer s) ?p (nat (len (nalu s1) - 1))"
      by (rule cc)
  qed
qed

theorem fragments_reassemble_witness:
  "getNextNalu frag_state = (1, frag_selected) \<and> maxPacketLength (params frag_state) = 4 \<and>
   len (nalu frag_selected) = 10 \<and>
   (\<exists>pkts s'. gets frag_state [0, 1, 2] = (map Packet pkts, s') \<and> naluComplete s' \<and>
      concat (map fu_payload pkts) = [1, 2, 3, 4, 5, 6, 7, 8, 9])"
proof -
  have b: "bytesAt (inBuffer frag_state) (ndata (nalu frag_selected) + 1) (nat (len (nalu frag_selected) - 1))
         = [1, 2, 3, 4, 5, 6, 7, 8, 9]"
    by (simp add: bytesAt_def frag_selected_def frag_state_def frag_input_def put_def buffer_of_def
        mem_of_def upt_conv_Cons)
  have e: "\<exists>pkts s'. gets frag_state (0 # [1, 2]) = (map Packet pkts, s') \<and> naluComplete s' \<and>
           concat (map fu_payload pkts) =
             bytesAt (inBuffer frag_state) (ndata (nalu frag_selected) + 1)
               (nat (len (nalu frag_selected) - 1))"
    by (rule fragments_reassemble [OF frag_state_facts(1,2) frag_state_select])
       (simp_all add: frag_state_facts MAX_OUTBUF_SIZE_def)
  show ?thesis
    using e frag_state_select frag_state_facts(3,4) unfolding b by blast
qed

section \<open>A whole NAL unit\<close>

lemma naluHeader_roundtrip':
  "naluHeader (uint (drop_bit 7 b AND 1)) (uint (drop_bit 5 b AND 3)) (uint (b AND 31)) = b"
  using naluHeader_roundtrip [of b] by simp

lemma nalu_header_byte:
  assumes "getNextNalu s = (1, s1)"
  shows "naluHeader (forbiddenBit (nalu s1)) (nalRefIdc (nalu s1)) (nalUnitType (nalu s1))
           = inBuffer s (ndata (nalu s1))"
  using assms
  by (auto simp: getNextNalu_def selectNalu_def Let_def naluHeader_roundtrip'
      split: option.splits if_splits prod.splits)

lemma get_whole:
  assumes "\<not> inBufferComplete s" "naluComplete s" "getNextNalu s = (1, s1)"
    and "len (nalu s1) \<le> maxPacketLength (params s)"
    and "len (nalu s1) + 12 \<le> MAX_OUTBUF_SIZE"
  shows "get t s =
           (Packet (rtpHeader True (seqNum s) (sampleTime (tsStartMillisec s) t) (ssrc (params s))
                    @ [inBuffer s (ndata (nalu s1))]
                    @ bytesAt (inBuffer s) (ndata (nalu s1) + 1) (nat (len (nalu s1) - 1))),
            s1\<lparr>seqNum := seqNum s + 1, tsCurrentSample := sampleTime (tsStartMillisec s) t,
                naluComplete := True\<rparr>)"
proof -
  have fr: "params s1 = params s" "seqNum s1 = seqNum s" "inBuffer s1 = inBuffer s"
    "tsStartMillisec s1 = tsStartMillisec s"
    using getNextNalu_frame [OF assms(3)] by simp_all
  have l: "1 \<le> len (nalu s1)"
    using getNextNalu_len [OF assms(3)] by simp
  show ?thesis
    using assms(1,2,4,5) l
    by (simp add: get_def assms(3) getWhole_def Let_def memcpy_def fr outView_exact
        nalu_header_byte [OF assms(3)])
qed

section \<open>Fragment count and sizes\<close>

lemma exact_state_select:
  "getNextNalu exact_state = (1, exact_selected)"
  by (simp add: exact_selected_def exact_state_def exact_input_def put_def buffer_of_def new_packer_def getNextNalu_def
      selectNalu_def isStartCode3_def isStartCode4_def mem_of_def findNext.simps Let_def)

lemma exact_state_facts:
  "\<not> inBufferComplete exact_state" "naluComplete exact_state"
  "maxPacketLength (params exact_state) = 4" "len (nalu exact_selected) = 8"
  by (simp_all add: exact_selected_def exact_state_def put_def new_packer_def)

lemma whole_state_select:
  "getNextNalu whole_state = (1, whole_selected)"
  by (simp add: whole_selected_def whole_state_def whole_input_def put_def buffer_of_def new_packer_def getNextNalu_def
      selectNalu_def isStartCode3_def isStartCode4_def mem_of_def findNext.simps Let_def)

lemma whole_state_facts:
  "\<not> inBufferComplete whole_state" "naluComplete whole_state"
  "maxPacketLength (params whole_state) = 1400" "len (nalu whole_selected) = 10"
  by (simp_all add: whole_selected_def whole_state_def put_def new_packer_def default_params_def)

lemma gets_unfinished:
  assumes "\<not> inBufferComplete s" "naluComplete s" "getNextNalu s = (1, s1)"
    and "0 < maxPacketLength (params s)" "maxPacketLength (params s) < len (nalu s1)"
    and "maxPacketLength (params s) + 14 \<le> MAX_OUTBUF_SIZE"
    and "int (length ys) <
           (if len (nalu s1) mod maxPacketLength (params s) = 0
            then len (nalu s1) div maxPacketLength (params s) - 1
            else len (nalu s1) div maxPacketLength (params s))"
  shows "\<not> naluComplete (snd (gets s (t # ys)))"
proof -
  let ?s2 = "s1\<lparr>seqNum := seqNum s1 + 1, tsCurrentSample := sampleTime (tsStartMillisec s1) t\<rparr>"
  let ?s3 = "planFragments ?s2"
  let ?sA = "?s3\<lparr>naluComplete := False, fuIndex := 1\<rparr>"
  have fr: "params s1 = params s" "inBufferComplete s1 = inBufferComplete s"
    using getNextNalu_frame [OF assms(3)] by simp_all
  have h: "0 < maxPacketLength (params ?s2)" "maxPacketLength (params ?s2) < len (nalu ?s2)"
    using assms(4,5) fr by simp_all
  have c: "int (length ys) < fuCounter ?s3"
    using assms(7) planFragments_counts(1) [OF h] by (simp add: fr split: if_splits)
  have g1: "get t s = (Packet (fragment ?s3 0 (seqNum s)), ?sA)"
    by (rule get_first [OF assms(1-6) refl])
  have g2: "gets ?sA ys =
      (map (\<lambda>k. Packet (fragment ?sA (fuIndex ?sA + int k) (seqNum ?sA + of_nat k))) [0..<length ys],
       ?sA\<lparr>seqNum := seqNum ?sA + of_nat (length ys), fuIndex := fuIndex ?sA + int (length ys)\<rparr>)"
    using assms(1,4,6) c fr by (intro gets_middle) (auto simp: planFragments_frame)
  show ?thesis
    by (simp only: gets_Cons_alt g1 g2 snd_conv) simp
qed

text \<open>
  Claim C1, as amended. Take a NAL unit that \<^verbatim>\<open>get\<close> selects and whose length \<open>len\<close>
  (with the header byte) exceeds the maximum payload length \<open>max\<close>, where \<open>max\<close> is
  positive and \<open>max + 14\<close> fits the scratch buffer, and let \<open>q = len div max\<close> and
  \<open>r = len mod max\<close>. Where the size the code computes for the last fragment (\<open>max\<close>
  when \<open>r = 0\<close>, \<open>r\<close> otherwise) is more than 1, the NAL unit is emitted as exactly
  \<open>q\<close> fragments when \<open>r = 0\<close> and exactly \<open>q + 1\<close> fragments otherwise: it is
  complete after that many calls and after no fewer. Every fragment before the last
  carries \<open>max\<close> payload bytes. The last fragment carries \<open>max - 1\<close> bytes when
  \<open>r = 0\<close> and \<open>r - 1\<close> bytes otherwise, and it is not empty. Nothing is said here of
  a NAL unit whose last fragment has the computed size 1 (\<open>r = 1\<close>, or \<open>max = 1\<close>).
\<close>

theorem fragment_count_and_sizes:
  assumes "\<not> inBufferComplete s" "naluComplete s" "getNextNalu s = (1, s1)"
    and "0 < maxPacketLength (params s)" "maxPacketLength (params s) < len (nalu s1)"
    and "maxPacketLength (params s) + 14 \<le> MAX_OUTBUF_SIZE"
    and "int (length (t # clocks)) =
           (if len (nalu s1) mod maxPacketLength (params s) = 0
            then len (nalu s1) div maxPacketLength (params s)
            else len (nalu s1) div maxPacketLength (params s) + 1)"
    and "1 < (if len (nalu s1) mod maxPacketLength (params s) = 0
              then maxPacketLength (params s)
              else len (nalu s1) mod maxPacketLength (params s))"
  shows "\<exists>pkts s'. gets s (t # clocks) = (map Packet pkts, s') \<and> naluComplete s' \<and>
           (\<forall>k<length clocks. \<not> naluComplete (snd (gets s (take (Suc k) (t # clocks))))) \<and>
           map (\<lambda>p. int (length (fu_payload p))) pkts =
             replicate (length clocks) (maxPacketLength (params s))
             @ [if len (nalu s1) mod maxPacketLength (params s) = 0
                then maxPacketLength (params s) - 1
                else len (nalu s1) mod maxPacketLength (params s) - 1] \<and>
           fu_payload (last pkts) \<noteq> []"
proof -
  let ?mx = "maxPacketLength (params s)" and ?n = "length clocks"
  obtain s3 where g: "gets s (t # clocks) =
           (map Packet (map (\<lambda>k. fragment s3 (int k) (seqNum s + of_nat k)) [0..<Suc ?n]),
            s3\<lparr>seqNum := seqNum s + of_nat (Suc ?n), naluComplete := True, fuIndex := 0\<rparr>)"
    and c: "fuCounter s3 = int ?n"
    and l: "lastFuSize s3 = (if len (nalu s1) mod ?mx = 0 then ?mx else len (nalu s1) mod ?mx)"
    and l1: "1 \<le> lastFuSize s3"
    and fr: "params s3 = params s"
    using fragmented_run [OF assms(1-7)] by blast
  let ?pk = "map (\<lambda>k. fragment s3 (int k) (seqNum s + of_nat k)) [0..<Suc ?n]"
  let ?s' = "s3\<lparr>seqNum := seqNum s + of_nat (Suc ?n), naluComplete := True, fuIndex := 0\<rparr>"
  have l2: "1 < lastFuSize s3"
    using assms(8) unfolding l .
  have lp: "last ?pk = fragment s3 (int ?n) (seqNum s + of_nat ?n)"
    by simp
  have "length (fu_payload (last ?pk)) = nat (lastFuSize s3 - 1)"
    unfolding lp by (simp add: c)
  then have "0 < length (fu_payload (last ?pk))"
    using l2 by simp
  then have nonempty: "fu_payload (last ?pk) \<noteq> []"
    by (rule iffD1 [OF length_greater_0_conv])
  have sizes: "map (\<lambda>p. int (length (fu_payload p))) ?pk =
             replicate ?n ?mx @ [if len (nalu s1) mod ?mx = 0 then ?mx - 1 else len (nalu s1) mod ?mx - 1]"
    using assms(4) l1 l
    by (auto simp: list_eq_iff_nth_eq nth_append c fr less_Suc_eq simp del: upt_Suc)
  have unfinished: "\<forall>k<?n. \<not> naluComplete (snd (gets s (take (Suc k) (t # clocks))))"
  proof (intro allI impI)
    fix k assume k: "k < ?n"
    have "\<not> naluComplete (snd (gets s (t # take k clocks)))"
      using assms(7) k by (intro gets_unfinished [OF assms(1-6)]) (auto split: if_splits)
    then show "\<not> naluComplete (snd (gets s (take (Suc k) (t # clocks))))"
      by simp
  qed
  show ?thesis
  proof (intro exI conjI)
    show "gets s (t # clocks) = (map Packet ?pk, ?s')" by (rule g)
    show "naluComplete ?s'" by simp
    show "\<forall>k<?n. \<not> naluComplete (snd (gets s (take (Suc k) (t # clocks))))" by (rule unfinished)
    show "map (\<lambda>p. int (length (fu_payload p))) ?pk =
             replicate ?n ?mx @ [if len (nalu s1) mod ?mx = 0 then ?mx - 1 else len (nalu s1) mod ?mx - 1]"
      by (rule sizes)
    show "fu_payload (last ?pk) \<noteq> []" by (rule nonempty)
  qed
qed

theorem fragment_count_and_sizes_witness:
  "getNextNalu frag_state = (1, frag_selected) \<and> maxPacketLength (params frag_state) = 4 \<and>
   len (nalu frag_selected) = 10 \<and>
   (\<exists>pkts s'. gets frag_state [0, 1, 2] = (map Packet pkts, s') \<and> naluComplete s' \<and>
      \<not> naluComplete (snd (gets frag_state [0])) \<and>
      \<not> naluComplete (snd (gets frag_state [0, 1])) \<and>
      map (\<lambda>p. int (length (fu_payload p))) pkts = [4, 4, 1] \<and>
      fu_payload (last pkts) \<noteq> []) \<and>
   getNextNalu exact_state = (1, exact_selected) \<and> maxPacketLength (params exact_state) = 4 \<and>
   len (nalu exact_selected) = 8 \<and>
   (\<exists>pkts s'. gets exact_state [0, 1] = (map Packet pkts, s') \<and> naluComplete s' \<and>
      \<not> naluComplete (snd (gets exact_state [0])) \<and>
      map (\<lambda>p. int (length (fu_payload p))) pkts = [4, 3] \<and>
      fu_payload (last pkts) \<noteq> [])"
proof -
  have a: "\<exists>pkts s'. gets frag_state (0 # [1, 2]) = (map Packet pkts, s') \<and> naluComplete s' \<and>
           (\<forall>k<length [1, 2 :: 32 word]. \<not> naluComplete (snd (gets frag_state (take (Suc k) (0 # [1, 2]))))) \<and>
           map (\<lambda>p. int (length (fu_payload p))) pkts =
             replicate (length [1, 2 :: 32 word]) (maxPacketLength (params frag_state))
             @ [if len (nalu frag_selected) mod maxPacketLength (params frag_state) = 0
                then maxPacketLength (params frag_state) - 1
                else len (nalu frag_selected) mod maxPacketLength (params frag_state) - 1] \<and>
           fu_payload (last pkts) \<noteq> []"
    by (rule fragment_count_and_sizes [OF frag_state_facts(1,2) frag_state_select])
       (simp_all add: frag_state_facts MAX_OUTBUF_SIZE_def)
  have b: "\<exists>pkts s'. gets exact_state (0 # [1]) = (map Packet pkts, s') \<and> naluComplete s' \<and>
           (\<forall>k<length [1 :: 32 word]. \<not> naluComplete (snd (gets exact_state (take (Suc k) (0 # [1]))))) \<and>
           map (\<lambda>p. int (length (fu_payload p))) pkts =
             replicate (length [1 :: 32 word]) (maxPacketLength (params exact_state))
             @ [if len (nalu exact_selected) mod maxPacketLength (params exact_state) = 0
                then maxPacketLength (params exact_state) - 1
                else len (nalu exact_selected) mod maxPacketLength (params exact_state) - 1] \<and>
           fu_payload (last pkts) \<noteq> []"
    by (rule fragment_count_and_sizes [OF exact_state_facts(1,2) exact_state_select])
       (simp_all add: exact_state_facts MAX_OUTBUF_SIZE_def)
  have a': "\<exists>pkts s'. gets frag_state [0, 1, 2] = (map Packet pkts, s') \<and> naluComplete s' \<and>
      \<not> naluComplete (snd (gets frag_state [0])) \<and>
      \<not> naluComplete (snd (gets frag_state [0, 1])) \<and>
      map (\<lambda>p. int (length (fu_payload p))) pkts = [4, 4, 1] \<and>
      fu_payload (last pkts) \<noteq> []"
  proof -
    have e1: "length [1, 2 :: 32 word] = 2" by simp
    have e2: "replicate 2 (maxPacketLength (params frag_state))
             @ [if len (nalu frag_selected) mod maxPacketLength (params frag_state) = 0
                then maxPacketLength (params frag_state) - 1
                else len (nalu frag_selected) mod maxPacketLength (params frag_state) - 1] = [4, 4, 1]"
      by (simp add: frag_state_facts numeral_2_eq_2)
    from a obtain pkts where "\<exists>s'. gets frag_state [0, 1, 2] = (map Packet pkts, s') \<and> naluComplete s' \<and>
        (\<forall>k<2. \<not> naluComplete (snd (gets frag_state (take (Suc k) [0, 1, 2])))) \<and>
        map (\<lambda>p. int (length (fu_payload p))) pkts = [4, 4, 1] \<and>
        fu_payload (last pkts) \<noteq> []"
      unfolding e1 e2 ..
    then obtain s' where x: "gets frag_state [0, 1, 2] = (map Packet pkts, s') \<and> naluComplete s' \<and>
        (\<forall>k<2. \<not> naluComplete (snd (gets frag_state (take (Suc k) [0, 1, 2])))) \<and>
        map (\<lambda>p. int (length (fu_payload p))) pkts = [4, 4, 1] \<and>
        fu_payload (last pkts) \<noteq> []" ..
    from x have g: "gets frag_state [0, 1, 2] = (map Packet pkts, s')" "naluComplete s'"
      and u: "\<forall>k<2. \<not> naluComplete (snd (gets frag_state (take (Suc k) [0, 1, 2])))"
      and m: "map (\<lambda>p. int (length (fu_payload p))) pkts = [4, 4, 1]"
      and ne: "fu_payload (last pkts) \<noteq> []"
      by (rule conjunct1, rule conjunct2 [THEN conjunct1], rule conjunct2 [THEN conjunct2, THEN conjunct1],
          rule conjunct2 [THEN conjunct2, THEN conjunct2, THEN conjunct1],
          rule conjunct2 [THEN conjunct2, THEN conjunct2, THEN conjunct2])
    have "take (Suc 0) [0, 1, 2 :: 32 word] = [0]" "take (Suc 1) [0, 1, 2 :: 32 word] = [0, 1]"
      by simp_all
    with u have v: "\<not> naluComplete (snd (gets frag_state [0]))" "\<not> naluComplete (snd (gets frag_state [0, 1]))"
      by (metis lessI numeral_2_eq_2 One_nat_def less_Suc_eq)+
    show ?thesis
      by (intro exI conjI) (rule g v m ne)+
  qed
  have b': "\<exists>pkts s'. gets exact_state [0, 1] = (map Packet pkts, s') \<and> naluComplete s' \<and>
      \<not> naluComplete (snd (gets exact_state [0])) \<and>
      map (\<lambda>p. int (length (fu_payload p))) pkts = [4, 3] \<and>
      fu_payload (last pkts) \<noteq> []"
  proof -
    have e1: "length [1 :: 32 word] = 1" by simp
    have e2: "replicate 1 (maxPacketLength (params exact_state))
             @ [if len (nalu exact_selected) mod maxPacketLength (params exact_state) = 0
                then maxPacketLength (params exact_state) - 1
                else len (nalu exact_selected) mod maxPacketLength (params exact_state) - 1] = [4, 3]"
      by (simp add: exact_state_facts)
    from b obtain pkts where "\<exists>s'. gets exact_state [0, 1] = (map Packet pkts, s') \<and> naluComplete s' \<and>
        (\<forall>k<1. \<not> naluComplete (snd (gets exact_state (take (Suc k) [0, 1])))) \<and>
        map (\<lambda>p. int (length (fu_payload p))) pkts = [4, 3] \<and>
        fu_payload (last pkts) \<noteq> []"
      unfolding e1 e2 ..
    then obtain s' where x: "gets exact_state [0, 1] = (map Packet pkts, s') \<and> naluComplete s' \<and>
        (\<forall>k<1. \<not> naluComplete (snd (gets exact_state (take (Suc k) [0, 1])))) \<and>
        map (\<lambda>p. int (length (fu_payload p))) pkts = [4, 3] \<and>
        fu_payload (last pkts) \<noteq> []" ..
    from x have g: "gets exact_state [0, 1] = (map Packet pkts, s')" "naluComplete s'"
      and u: "\<forall>k<1. \<not> naluComplete (snd (gets exact_state (take (Suc k) [0, 1])))"
      and m: "map (\<lambda>p. int (length (fu_payload p))) pkts = [4, 3]"
      and ne: "fu_payload (last pkts) \<noteq> []"
      by (rule conjunct1, rule conjunct2 [THEN conjunct1], rule conjunct2 [THEN conjunct2, THEN conjunct1],
          rule conjunct2 [THEN conjunct2, THEN conjunct2, THEN conjunct1],
          rule conjunct2 [THEN conjunct2, THEN conjunct2, THEN conjunct2])
    have "take (Suc 0) [0, 1 :: 32 word] = [0]"
      by simp
    with u have v: "\<not> naluComplete (snd (gets exact_state [0]))"
      by (metis lessI One_nat_def)
    show ?thesis
      by (intro exI conjI) (rule g v m ne)+
  qed
  show ?thesis
    by (intro conjI) (rule a' b' frag_state_select exact_state_select frag_state_facts(3,4)
        exact_state_facts(3,4))+
qed

lemma packets_map_Packet [simp]: "packets (map Packet xs) = xs"
  by (induction xs) simp_all

text \<open>
  Claim C1 as it was stated fails: with \<open>len = 10\<close> and \<open>max = 4\<close> (\<open>r = 2\<close>) the
  third and last fragment carries 1 payload byte, not 2.
\<close>

theorem last_fragment_size_counterexample:
  "getNextNalu frag_state = (1, frag_selected) \<and>
   maxPacketLength (params frag_state) < len (nalu frag_selected) \<and>
   len (nalu frag_selected) mod maxPacketLength (params frag_state) = 2 \<and>
   length (packets (fst (gets frag_state [0, 1, 2]))) = 3 \<and>
   length (fu_payload (packets (fst (gets frag_state [0, 1, 2])) ! 2)) = 1"
proof -
  obtain s3 where g: "gets frag_state (0 # [1, 2]) =
           (map Packet (map (\<lambda>k. fragment s3 (int k) (seqNum frag_state + of_nat k)) [0..<Suc (length [1, 2 :: 32 word])]),
            s3\<lparr>seqNum := seqNum frag_state + of_nat (Suc (length [1, 2 :: 32 word])), naluComplete := True, fuIndex := 0\<rparr>)"
    and c: "fuCounter s3 = int (length [1, 2 :: 32 word])"
    and l: "lastFuSize s3 = (if len (nalu frag_selected) mod maxPacketLength (params frag_state) = 0
                             then maxPacketLength (params frag_state)
                             else len (nalu frag_selected) mod maxPacketLength (params frag_state))"
    using fragmented_run [OF frag_state_facts(1,2) frag_state_select, of 0 "[1, 2]"]
    by (auto simp: frag_state_facts MAX_OUTBUF_SIZE_def)
  have l2: "lastFuSize s3 = 2" using l by (simp add: frag_state_facts)
  have c2: "fuCounter s3 = 2" using c by simp
  show ?thesis
    by (simp add: g frag_state_select frag_state_facts c2 l2 upt_conv_Cons del: upt_Suc gets.simps)
qed

text \<open>
  The case that the amended claim C1 leaves out: with \<open>len = 10\<close> and \<open>max = 9\<close>
  (\<open>r = 1\<close>) the code emits a first fragment of 9 payload bytes and a last fragment of
  14 bytes that carries no payload. The test for an exact multiple (line 200) is made on
  the length with the header byte, while the fragments carry the NAL unit without it.
\<close>

lemma empty_last_fragment:
  "map length (packets (fst (gets (put (buffer_of frag_input)
                                    (new_packer \<lparr>maxPacketLength = 9, ssrc = 1234\<rparr> 0)) [0, 1])))
     = [23, 14]"
  by (simp add: put_def buffer_of_def new_packer_def get_def getNextNalu_def selectNalu_def
      isStartCode3_def isStartCode4_def mem_of_def findNext.simps Let_def memcpy_def bytesAt_def
      outView_def MAX_OUTBUF_SIZE_def rtpHeader_def be16_def be32_def sampleTime_def
      H264_PAYLOAD_TYPE_def upt_conv_Cons frag_input_def getFirstFU_def getMiddleFU_def
      getLastFU_def planFragments_def c_div_def c_mod_def fuIndicator_def fuHeader_def)

section \<open>Marker bit, FU bits and timestamps\<close>

lemma fragmented_bits:
  assumes "\<not> inBufferComplete s" "naluComplete s" "getNextNalu s = (1, s1)"
    and "0 < maxPacketLength (params s)" "maxPacketLength (params s) < len (nalu s1)"
    and "maxPacketLength (params s) + 14 \<le> MAX_OUTBUF_SIZE"
    and "int (length (t # clocks)) =
           (if len (nalu s1) mod maxPacketLength (params s) = 0
            then len (nalu s1) div maxPacketLength (params s)
            else len (nalu s1) div maxPacketLength (params s) + 1)"
  shows "\<exists>pkts s'. gets s (t # clocks) = (map Packet pkts, s') \<and> naluComplete s' \<and>
           map pkt_marker pkts = replicate (length clocks) False @ [True] \<and>
           map fu_S pkts = True # replicate (length clocks) False \<and>
           map fu_E pkts = replicate (length clocks) False @ [True] \<and>
           map pkt_timestamp pkts = replicate (Suc (length clocks)) (sampleTime (tsStartMillisec s) t) \<and>
           tsCurrentSample s' = sampleTime (tsStartMillisec s) t"
proof -
  let ?n = "length clocks"
  obtain s3 where g: "gets s (t # clocks) =
           (map Packet (map (\<lambda>k. fragment s3 (int k) (seqNum s + of_nat k)) [0..<Suc ?n]),
            s3\<lparr>seqNum := seqNum s + of_nat (Suc ?n), naluComplete := True, fuIndex := 0\<rparr>)"
    and c: "fuCounter s3 = int ?n"
    and ts: "tsCurrentSample s3 = sampleTime (tsStartMillisec s) t"
    using fragmented_run [OF assms] by blast
  let ?pk = "map (\<lambda>k. fragment s3 (int k) (seqNum s + of_nat k)) [0..<Suc ?n]"
  let ?s' = "s3\<lparr>seqNum := seqNum s + of_nat (Suc ?n), naluComplete := True, fuIndex := 0\<rparr>"
  have m: "map pkt_marker ?pk = replicate ?n False @ [True]"
    by (simp only: map_map o_def fragment_fields c map_eq_last_only)
  have s: "map fu_S ?pk = True # replicate ?n False"
    by (simp only: map_map o_def fragment_fields map_eq_first_only)
  have e: "map fu_E ?pk = replicate ?n False @ [True]"
    by (simp only: map_map o_def fragment_fields c map_eq_last_only)
  have tm: "map pkt_timestamp ?pk = replicate (Suc ?n) (sampleTime (tsStartMillisec s) t)"
    by (simp only: map_map o_def fragment_fields ts map_replicate_const length_upt diff_zero)
  have t': "tsCurrentSample ?s' = sampleTime (tsStartMillisec s) t"
    by (simp add: ts)
  have nc: "naluComplete ?s'" by simp
  show ?thesis
  proof (intro exI conjI)
    show "gets s (t # clocks) = (map Packet ?pk, ?s')" by (rule g)
    show "naluComplete ?s'" by (rule nc)
    show "map pkt_marker ?pk = replicate ?n False @ [True]" by (rule m)
    show "map fu_S ?pk = True # replicate ?n False" by (rule s)
    show "map fu_E ?pk = replicate ?n False @ [True]" by (rule e)
    show "map pkt_timestamp ?pk = replicate (Suc ?n) (sampleTime (tsStartMillisec s) t)" by (rule tm)
    show "tsCurrentSample ?s' = sampleTime (tsStartMillisec s) t" by (rule t')
  qed
qed

lemma whole_packet_fields:
  assumes "\<not> inBufferComplete s" "naluComplete s" "getNextNalu s = (1, s1)"
    and "len (nalu s1) \<le> maxPacketLength (params s)"
    and "len (nalu s1) + 12 \<le> MAX_OUTBUF_SIZE"
  shows "\<exists>p s'. get t s = (Packet p, s') \<and> naluComplete s' \<and> nextNaluPtr s' = nextNaluPtr s1 \<and>
           pkt_marker p \<and> p ! 12 = inBuffer s (ndata (nalu s1)) \<and>
           drop 13 p = bytesAt (inBuffer s) (ndata (nalu s1) + 1) (nat (len (nalu s1) - 1)) \<and>
           int (length p) = len (nalu s1) + 12"
proof -
  let ?p = "rtpHeader True (seqNum s) (sampleTime (tsStartMillisec s) t) (ssrc (params s))
                    @ [inBuffer s (ndata (nalu s1))]
                    @ bytesAt (inBuffer s) (ndata (nalu s1) + 1) (nat (len (nalu s1) - 1))"
  let ?s' = "s1\<lparr>seqNum := seqNum s + 1, tsCurrentSample := sampleTime (tsStartMillisec s) t,
                naluComplete := True\<rparr>"
  have l: "1 \<le> len (nalu s1)"
    using getNextNalu_len [OF assms(3)] by simp
  show ?thesis
  proof (intro exI conjI)
    show "get t s = (Packet ?p, ?s')" by (rule get_whole [OF assms])
    show "naluComplete ?s'" by simp
    show "nextNaluPtr ?s' = nextNaluPtr s1" by simp
    show "pkt_marker ?p" by simp
    show "?p ! 12 = inBuffer s (ndata (nalu s1))" by (simp add: rtpHeader_nth_after)
    show "drop 13 ?p = bytesAt (inBuffer s) (ndata (nalu s1) + 1) (nat (len (nalu s1) - 1))" by simp
    show "int (length ?p) = len (nalu s1) + 12" using l by simp
  qed
qed

text \<open>
  Claim C3, as amended. For a NAL unit of length \<open>len\<close> (with the header byte) at most
  the maximum payload length and with \<open>len + 12\<close> at most the 10240 bytes of the scratch
  buffer, \<^verbatim>\<open>get\<close> emits one packet and the NAL unit is complete: the marker bit is 1,
  byte 12 is the NAL unit's own header byte, the bytes from 13 on are the \<open>len - 1\<close>
  bytes of the NAL unit after its header, and the packet has \<open>len + 12\<close> bytes.
\<close>

theorem whole_packet:
  assumes "\<not> inBufferComplete s" "naluComplete s" "getNextNalu s = (1, s1)"
    and "len (nalu s1) \<le> maxPacketLength (params s)"
    and "len (nalu s1) + 12 \<le> MAX_OUTBUF_SIZE"
  shows "\<exists>p s'. get t s = (Packet p, s') \<and> naluComplete s' \<and> nextNaluPtr s' = nextNaluPtr s1 \<and>
           pkt_marker p \<and> p ! 12 = inBuffer s (ndata (nalu s1)) \<and>
           drop 13 p = bytesAt (inBuffer s) (ndata (nalu s1) + 1) (nat (len (nalu s1) - 1)) \<and>
           int (length p) = len (nalu s1) + 12"
  by (rule whole_packet_fields [OF assms])

theorem whole_packet_witness:
  "getNextNalu whole_state = (1, whole_selected) \<and> maxPacketLength (params whole_state) = 1400 \<and>
   len (nalu whole_selected) = 10 \<and>
   (\<exists>p s'. get 0 whole_state = (Packet p, s') \<and> naluComplete s' \<and> nextNaluPtr s' = None \<and>
           pkt_marker p \<and> p ! 12 = 0x65 \<and> drop 13 p = [1, 2, 3, 4, 5, 6, 7, 8, 9] \<and>
           int (length p) = 22)"
proof -
  have e: "nextNaluPtr whole_selected = None" "inBuffer whole_state (ndata (nalu whole_selected)) = 0x65"
    "bytesAt (inBuffer whole_state) (ndata (nalu whole_selected) + 1) (nat (len (nalu whole_selected) - 1))
       = [1, 2, 3, 4, 5, 6, 7, 8, 9]"
    "len (nalu whole_selected) + 12 = 22"
    by (simp_all add: bytesAt_def whole_selected_def whole_state_def whole_input_def put_def buffer_of_def
        mem_of_def upt_conv_Cons)
  have w: "\<exists>p s'. get 0 whole_state = (Packet p, s') \<and> naluComplete s' \<and>
           nextNaluPtr s' = nextNaluPtr whole_selected \<and>
           pkt_marker p \<and> p ! 12 = inBuffer whole_state (ndata (nalu whole_selected)) \<and>
           drop 13 p = bytesAt (inBuffer whole_state) (ndata (nalu whole_selected) + 1)
                         (nat (len (nalu whole_selected) - 1)) \<and>
           int (length p) = len (nalu whole_selected) + 12"
    by (rule whole_packet [OF whole_state_facts(1,2) whole_state_select])
       (simp_all add: whole_state_facts MAX_OUTBUF_SIZE_def)
  show ?thesis
    using w whole_state_select whole_state_facts(3,4) unfolding e
    by (intro conjI)
qed

text \<open>
  Claim C5. A NAL unit that is emitted whole has the marker bit on its one packet. A NAL
  unit that is emitted in fragments has the marker bit on its last fragment only, the FU
  header's S bit on its first fragment only and the E bit on its last fragment only; the
  fragments in between carry S = 0, E = 0 and marker = 0.
\<close>

theorem marker_and_fu_bits:
  assumes "\<not> inBufferComplete s" "naluComplete s" "getNextNalu s = (1, s1)"
  shows "(len (nalu s1) \<le> maxPacketLength (params s) \<and> len (nalu s1) + 12 \<le> MAX_OUTBUF_SIZE \<longrightarrow>
           (\<exists>p s'. get t s = (Packet p, s') \<and> naluComplete s' \<and> pkt_marker p))
       \<and> (0 < maxPacketLength (params s) \<and> maxPacketLength (params s) < len (nalu s1) \<and>
          maxPacketLength (params s) + 14 \<le> MAX_OUTBUF_SIZE \<and>
          int (length (t # clocks)) =
           (if len (nalu s1) mod maxPacketLength (params s) = 0
            then len (nalu s1) div maxPacketLength (params s)
            else len (nalu s1) div maxPacketLength (params s) + 1) \<longrightarrow>
           (\<exists>pkts s'. gets s (t # clocks) = (map Packet pkts, s') \<and> naluComplete s' \<and>
              map pkt_marker pkts = replicate (length clocks) False @ [True] \<and>
              map fu_S pkts = True # replicate (length clocks) False \<and>
              map fu_E pkts = replicate (length clocks) False @ [True]))"
proof (intro conjI impI)
  assume h: "len (nalu s1) \<le> maxPacketLength (params s) \<and> len (nalu s1) + 12 \<le> MAX_OUTBUF_SIZE"
  from whole_packet_fields [OF assms conjunct1 [OF h] conjunct2 [OF h], of t]
  obtain p s' where "get t s = (Packet p, s')" "naluComplete s'" "pkt_marker p"
    by (elim exE conjE)
  then show "\<exists>p s'. get t s = (Packet p, s') \<and> naluComplete s' \<and> pkt_marker p"
    by (intro exI conjI)
next
  assume h: "0 < maxPacketLength (params s) \<and> maxPacketLength (params s) < len (nalu s1) \<and>
          maxPacketLength (params s) + 14 \<le> MAX_OUTBUF_SIZE \<and>
          int (length (t # clocks)) =
           (if len (nalu s1) mod maxPacketLength (params s) = 0
            then len (nalu s1) div maxPacketLength (params s)
            else len (nalu s1) div maxPacketLength (params s) + 1)"
  from h have h1: "0 < maxPacketLength (params s)" by (rule conjunct1)
  from h have h2: "maxPacketLength (params s) < len (nalu s1)" by (rule conjunct2 [THEN conjunct1])
  from h have h3: "maxPacketLength (params s) + 14 \<le> MAX_OUTBUF_SIZE"
    by (rule conjunct2 [THEN conjunct2, THEN conjunct1])
  from h have h4: "int (length (t # clocks)) =
           (if len (nalu s1) mod maxPacketLength (params s) = 0
            then len (nalu s1) div maxPacketLength (params s)
            else len (nalu s1) div maxPacketLength (params s) + 1)"
    by (rule conjunct2 [THEN conjunct2, THEN conjunct2])
  from fragmented_bits [OF assms h1 h2 h3 h4]
  obtain pkts s' where "gets s (t # clocks) = (map Packet pkts, s')" "naluComplete s'"
    "map pkt_marker pkts = replicate (length clocks) False @ [True]"
    "map fu_S pkts = True # replicate (length clocks) False"
    "map fu_E pkts = replicate (length clocks) False @ [True]"
    by (elim exE conjE)
  then show "\<exists>pkts s'. gets s (t # clocks) = (map Packet pkts, s') \<and> naluComplete s' \<and>
              map pkt_marker pkts = replicate (length clocks) False @ [True] \<and>
              map fu_S pkts = True # replicate (length clocks) False \<and>
              map fu_E pkts = replicate (length clocks) False @ [True]"
    by (intro exI conjI)
qed

theorem marker_and_fu_bits_witness:
  "getNextNalu whole_state = (1, whole_selected) \<and> maxPacketLength (params whole_state) = 1400 \<and>
   len (nalu whole_selected) = 10 \<and>
   (\<exists>p s'. get 0 whole_state = (Packet p, s') \<and> naluComplete s' \<and> pkt_marker p) \<and>
   getNextNalu frag_state = (1, frag_selected) \<and> maxPacketLength (params frag_state) = 4 \<and>
   len (nalu frag_selected) = 10 \<and>
   (\<exists>pkts s'. gets frag_state [0, 1, 2] = (map Packet pkts, s') \<and> naluComplete s' \<and>
      map pkt_marker pkts = [False, False, True] \<and>
      map fu_S pkts = [True, False, False] \<and>
      map fu_E pkts = [False, False, True])"
proof -
  have w: "\<exists>p s'. get 0 whole_state = (Packet p, s') \<and> naluComplete s' \<and> pkt_marker p"
    by (rule marker_and_fu_bits [OF whole_state_facts(1,2) whole_state_select, THEN conjunct1, THEN mp])
       (simp add: whole_state_facts MAX_OUTBUF_SIZE_def)
  have e: "replicate (length [1, 2 :: 32 word]) False @ [True] = [False, False, True]"
    "True # replicate (length [1, 2 :: 32 word]) False = [True, False, False]"
    by (simp_all add: numeral_2_eq_2)
  have f: "\<exists>pkts s'. gets frag_state (0 # [1, 2]) = (map Packet pkts, s') \<and> naluComplete s' \<and>
              map pkt_marker pkts = replicate (length [1, 2 :: 32 word]) False @ [True] \<and>
              map fu_S pkts = True # replicate (length [1, 2 :: 32 word]) False \<and>
              map fu_E pkts = replicate (length [1, 2 :: 32 word]) False @ [True]"
    by (rule marker_and_fu_bits [OF frag_state_facts(1,2) frag_state_select, THEN conjunct2, THEN mp])
       (simp add: frag_state_facts MAX_OUTBUF_SIZE_def)
  show ?thesis
    using w f whole_state_select whole_state_facts(3,4) frag_state_select frag_state_facts(3,4)
    unfolding e by (intro conjI)
qed

text \<open>
  Claim C6. All fragments of one NAL unit carry the same RTP timestamp: the one computed
  from the clock when the NAL unit was selected, whatever the clock reads at the later
  calls.
\<close>

theorem fragments_share_timestamp:
  assumes "\<not> inBufferComplete s" "naluComplete s" "getNextNalu s = (1, s1)"
    and "0 < maxPacketLength (params s)" "maxPacketLength (params s) < len (nalu s1)"
    and "maxPacketLength (params s) + 14 \<le> MAX_OUTBUF_SIZE"
    and "int (length (t # clocks)) =
           (if len (nalu s1) mod maxPacketLength (params s) = 0
            then len (nalu s1) div maxPacketLength (params s)
            else len (nalu s1) div maxPacketLength (params s) + 1)"
  shows "\<exists>pkts s'. gets s (t # clocks) = (map Packet pkts, s') \<and>
           map pkt_timestamp pkts = replicate (Suc (length clocks)) (sampleTime (tsStartMillisec s) t) \<and>
           tsCurrentSample s' = sampleTime (tsStartMillisec s) t"
proof -
  from fragmented_bits [OF assms]
  obtain pkts s' where "gets s (t # clocks) = (map Packet pkts, s')"
    "map pkt_timestamp pkts = replicate (Suc (length clocks)) (sampleTime (tsStartMillisec s) t)"
    "tsCurrentSample s' = sampleTime (tsStartMillisec s) t"
    by (elim exE conjE)
  then show ?thesis
    by (intro exI conjI)
qed

theorem fragments_share_timestamp_witness:
  "getNextNalu frag_state = (1, frag_selected) \<and> maxPacketLength (params frag_state) = 4 \<and>
   len (nalu frag_selected) = 10 \<and>
   (\<exists>pkts s'. gets frag_state [10, 50, 90] = (map Packet pkts, s') \<and>
      map pkt_timestamp pkts = [900, 900, 900] \<and> tsCurrentSample s' = 900)"
proof -
  have st: "sampleTime (tsStartMillisec frag_state) 10 = 900"
    by (simp add: sampleTime_def frag_state_def put_def new_packer_def)
  have e: "replicate (Suc (length [50, 90 :: 32 word])) (900 :: 32 word) = [900, 900, 900]"
    by (simp add: numeral_2_eq_2)
  have f: "\<exists>pkts s'. gets frag_state (10 # [50, 90]) = (map Packet pkts, s') \<and>
           map pkt_timestamp pkts
             = replicate (Suc (length [50, 90 :: 32 word])) (sampleTime (tsStartMillisec frag_state) 10) \<and>
           tsCurrentSample s' = sampleTime (tsStartMillisec frag_state) 10"
    by (rule fragments_share_timestamp [OF frag_state_facts(1,2) frag_state_select])
       (simp_all add: frag_state_facts MAX_OUTBUF_SIZE_def)
  show ?thesis
    using f frag_state_select frag_state_facts(3,4) unfolding st e by (intro conjI)
qed

section \<open>A NAL unit that does not fit the scratch buffer\<close>

lemma findNext_end:
  assumes "\<forall>k. p < k \<longrightarrow> \<not> isStartCode3 m k \<and> \<not> isStartCode4 m k"
  shows "findNext m sz p = (max (p + 1) sz, None)"
  using assms
proof (induction m sz p rule: findNext.induct)
  case (1 m sz p)
  show ?case
  proof (cases "sz \<le> p + 1")
    case True
    then show ?thesis by (subst findNext.simps) (simp add: Let_def max_def)
  next
    case False
    have n: "\<not> (isStartCode3 m (p + 1) \<or> isStartCode4 m (p + 1))"
      using "1.prems" by simp
    have "findNext m sz (p + 1) = (max (p + 1 + 1) sz, None)"
      using False n "1.prems" by (intro "1.IH") auto
    with False n show ?thesis
      by (subst findNext.simps) (simp add: Let_def max_def)
  qed
qed

lemma big_mem_no_start:
  "\<forall>k. 3 < k \<longrightarrow> \<not> isStartCode3 big_mem k \<and> \<not> isStartCode4 big_mem k"
  by (simp add: isStartCode3_def isStartCode4_def big_mem_def)

lemma select_big:
  "getNextNalu (put big_buffer s) =
     (1, (put big_buffer s)\<lparr>nextNaluPtr := None,
            nalu := \<lparr>startCodeLen = 3, ndata = 3, len = 10229, forbiddenBit = 0,
                     nalRefIdc = 2, nalUnitType = 1\<rparr>\<rparr>)"
proof -
  have f: "findNext big_mem 10232 (0 + 3) = (max (0 + 3 + 1) 10232, None)"
    using big_mem_no_start by (intro findNext_end) simp
  show ?thesis
    using f
    by (simp add: getNextNalu_def put_def big_buffer_def selectNalu_def isStartCode3_def
        big_mem_def Let_def)
qed

lemma select_whole:
  "getNextNalu (put (buffer_of whole_input) s) =
     (1, (put (buffer_of whole_input) s)\<lparr>nextNaluPtr := None,
            nalu := \<lparr>startCodeLen = 4, ndata = 4, len = 10, forbiddenBit = 0,
                     nalRefIdc = 3, nalUnitType = 5\<rparr>\<rparr>)"
  by (simp add: whole_input_def put_def buffer_of_def getNextNalu_def
      selectNalu_def isStartCode3_def isStartCode4_def mem_of_def findNext.simps Let_def)

lemma get_whole_overflow:
  assumes "\<not> inBufferComplete s" "naluComplete s" "getNextNalu s = (1, s1)"
    and "len (nalu s1) \<le> maxPacketLength (params s)"
    and "MAX_OUTBUF_SIZE < len (nalu s1) + 12"
  shows "get t s = (PackException,
            s1\<lparr>seqNum := seqNum s + 1, tsCurrentSample := sampleTime (tsStartMillisec s) t\<rparr>)"
proof -
  have fr: "params s1 = params s" "seqNum s1 = seqNum s" "tsStartMillisec s1 = tsStartMillisec s"
    using getNextNalu_frame [OF assms(3)] by simp_all
  show ?thesis
    using assms(1,2,4,5)
    by (simp add: get_def assms(3) getWhole_def Let_def fr)
qed

lemma get_first_overflow:
  assumes "\<not> inBufferComplete s" "naluComplete s" "getNextNalu s = (1, s1)"
    and "maxPacketLength (params s) < len (nalu s1)"
    and "MAX_OUTBUF_SIZE < maxPacketLength (params s) + 14"
  shows "fst (get t s) = PackException"
proof -
  have fr: "params s1 = params s"
    using getNextNalu_frame [OF assms(3)] by simp_all
  have "maxPacketLength (params s) \<noteq> 0"
    using assms(5) by (auto simp: MAX_OUTBUF_SIZE_def)
  then show ?thesis
    using assms(1,2,4,5)
    by (simp add: get_def assms(3) getFirstFU_def Let_def fr planFragments_frame)
qed

text \<open>
  Claim C3 as it was stated, without the bound on \<open>len + 12\<close>, fails: a NAL unit of
  10229 bytes under a maximum payload length of 20000 is not emitted; the call raises.
\<close>

theorem whole_packet_overflow_counterexample:
  "fst (getNextNalu big_state) = 1 \<and> len (nalu (snd (getNextNalu big_state))) = 10229 \<and>
   maxPacketLength (params big_state) = 20000 \<and> fst (get 0 big_state) = PackException"
proof -
  have s: "getNextNalu big_state =
     (1, big_state\<lparr>nextNaluPtr := None,
            nalu := \<lparr>startCodeLen = 3, ndata = 3, len = 10229, forbiddenBit = 0,
                     nalRefIdc = 2, nalUnitType = 1\<rparr>\<rparr>)"
    unfolding big_state_def by (rule select_big)
  have p: "maxPacketLength (params big_state) = 20000" "\<not> inBufferComplete big_state"
    "naluComplete big_state"
    by (simp_all add: big_state_def put_def new_packer_def big_params_def)
  have "fst (get 0 big_state) = PackException"
    by (subst get_whole_overflow [OF p(2,3) s]) (simp_all add: p MAX_OUTBUF_SIZE_def)
  then show ?thesis
    by (simp add: s p)
qed

section \<open>Sequence numbers\<close>

lemma getWhole_Packet:
  assumes "getWhole sq s = (Packet p, s')"
  shows "p = rtpHeader True sq (tsCurrentSample s) (ssrc (params s))
             @ [naluHeader (forbiddenBit (nalu s)) (nalRefIdc (nalu s)) (nalUnitType (nalu s))]
             @ bytesAt (inBuffer s) (ndata (nalu s) + 1) (nat (len (nalu s) - 1))"
    and "s' = s\<lparr>naluComplete := True\<rparr>"
    and "1 \<le> len (nalu s)" and "len (nalu s) + 12 \<le> MAX_OUTBUF_SIZE"
  using assms
  by (auto simp: getWhole_def Let_def memcpy_def outView_exact split: if_splits)

lemma getFirstFU_Packet:
  assumes "getFirstFU sq s = (Packet p, s')"
  shows "p = rtpHeader False sq (tsCurrentSample s) (ssrc (params s))
             @ [fuIndicator (forbiddenBit (nalu s)) (nalRefIdc (nalu s)),
                fuHeader True False (nalUnitType (nalu s))]
             @ bytesAt (inBuffer s) (ndata (nalu s) + 1) (nat (maxPacketLength (params s)))"
    and "s' = (planFragments s)\<lparr>naluComplete := False, fuIndex := 1\<rparr>"
    and "0 < maxPacketLength (params s)" and "maxPacketLength (params s) + 14 \<le> MAX_OUTBUF_SIZE"
  using assms
  by (auto simp: getFirstFU_def Let_def memcpy_def outView_exact planFragments_frame split: if_splits)

lemma getLastFU_Packet:
  assumes "getLastFU sq s = (Packet p, s')"
  shows "p = rtpHeader True sq (tsCurrentSample s) (ssrc (params s))
             @ [fuIndicator (forbiddenBit (nalu s)) (nalRefIdc (nalu s)),
                fuHeader False True (nalUnitType (nalu s))]
             @ bytesAt (inBuffer s) (ndata (nalu s) + 1 + fuIndex s * maxPacketLength (params s))
                 (nat (lastFuSize s - 1))"
    and "s' = s\<lparr>naluComplete := True, fuIndex := 0\<rparr>"
    and "1 \<le> lastFuSize s" and "lastFuSize s - 1 + 14 \<le> MAX_OUTBUF_SIZE"
  using assms
  by (auto simp: getLastFU_def Let_def memcpy_def outView_exact split: if_splits)

lemma getMiddleFU_Packet:
  assumes "getMiddleFU sq s = (Packet p, s')"
  shows "p = rtpHeader False sq (tsCurrentSample s) (ssrc (params s))
             @ [fuIndicator (forbiddenBit (nalu s)) (nalRefIdc (nalu s)),
                fuHeader False False (nalUnitType (nalu s))]
             @ bytesAt (inBuffer s) (ndata (nalu s) + 1 + fuIndex s * maxPacketLength (params s))
                 (nat (maxPacketLength (params s)))"
    and "s' = s\<lparr>fuIndex := fuIndex s + 1\<rparr>"
    and "0 \<le> maxPacketLength (params s)" and "maxPacketLength (params s) + 14 \<le> MAX_OUTBUF_SIZE"
  using assms
  by (auto simp: getMiddleFU_def Let_def memcpy_def outView_exact split: if_splits)

lemma branch_not_Nothing:
  "fst (getWhole sq s) \<noteq> Nothing" "fst (getFirstFU sq s) \<noteq> Nothing"
  "fst (getLastFU sq s) \<noteq> Nothing" "fst (getMiddleFU sq s) \<noteq> Nothing"
  by (simp_all add: getWhole_def getFirstFU_def getLastFU_def getMiddleFU_def Let_def
      split: option.split)

lemma get_Packet_seq:
  assumes "get t s = (Packet p, s')"
  shows "pkt_seq p = seqNum s \<and> seqNum s' = seqNum s + 1"
proof (cases "naluComplete s")
  case True
  obtain r s1 where n: "getNextNalu s = (r, s1)" by (cases "getNextNalu s")
  have q: "seqNum s1 = seqNum s" using getNextNalu_frame [OF n] by simp
  let ?s2 = "s1\<lparr>seqNum := seqNum s1 + 1, tsCurrentSample := sampleTime (tsStartMillisec s1) t\<rparr>"
  from assms True n have c: "getWhole (seqNum s1) ?s2 = (Packet p, s') \<or> getFirstFU (seqNum s1) ?s2 = (Packet p, s')"
    by (auto simp: get_def Let_def split: if_splits)
  then show ?thesis
  proof
    assume w: "getWhole (seqNum s1) ?s2 = (Packet p, s')"
    show ?thesis
      by (simp add: getWhole_Packet(1,2) [OF w] q)
  next
    assume w: "getFirstFU (seqNum s1) ?s2 = (Packet p, s')"
    show ?thesis
      by (simp add: getFirstFU_Packet(1,2) [OF w] q planFragments_frame)
  qed
next
  case False
  let ?s1 = "s\<lparr>seqNum := seqNum s + 1\<rparr>"
  from assms False have c: "getLastFU (seqNum s) ?s1 = (Packet p, s') \<or> getMiddleFU (seqNum s) ?s1 = (Packet p, s')"
    by (auto simp: get_def Let_def split: if_splits)
  then show ?thesis
  proof
    assume w: "getLastFU (seqNum s) ?s1 = (Packet p, s')"
    show ?thesis
      by (simp add: getLastFU_Packet(1,2) [OF w])
  next
    assume w: "getMiddleFU (seqNum s) ?s1 = (Packet p, s')"
    show ?thesis
      by (simp add: getMiddleFU_Packet(1,2) [OF w])
  qed
qed

lemma get_Nothing_seq:
  assumes "get t s = (Nothing, s')"
  shows "seqNum s' = seqNum s"
proof -
  obtain r s1 where n: "getNextNalu s = (r, s1)" by (cases "getNextNalu s")
  have q: "seqNum s1 = seqNum s" using getNextNalu_frame [OF n] by simp
  show ?thesis
    using assms n q branch_not_Nothing
    by (auto simp: get_def Let_def split: if_splits) (metis fst_conv)+
qed

lemma put_seqNum: "seqNum (put b s) = seqNum s"
  by (simp add: put_def)

lemmas eval_defs = put_def buffer_of_def new_packer_def default_params_def
      get_def getNextNalu_def selectNalu_def isStartCode3_def isStartCode4_def mem_of_def
      findNext.simps Let_def getWhole_def memcpy_def bytesAt_def outView_def MAX_OUTBUF_SIZE_def
      rtpHeader_def be16_def be32_def naluHeader_def sampleTime_def H264_PAYLOAD_TYPE_def
      upt_conv_Cons whole_input_def

lemma run_seq:
  assumes "\<forall>r\<in>set (fst (run s cs)). r \<noteq> PackException \<and> r \<noteq> Undefined"
  shows "map pkt_seq (packets (fst (run s cs)))
           = map (\<lambda>k. seqNum s + of_nat k) [0..<length (packets (fst (run s cs)))]
         \<and> seqNum (snd (run s cs)) = seqNum s + of_nat (length (packets (fst (run s cs))))"
  using assms
proof (induction s cs rule: run.induct)
  case (1 s)
  then show ?case by simp
next
  case (2 s b cs)
  then show ?case by (simp add: put_seqNum)
next
  case (3 s t cs)
  obtain r s1 where g: "get t s = (r, s1)" by (cases "get t s")
  obtain rs s2 where rn: "run s1 cs = (rs, s2)" by (cases "run s1 cs")
  have e: "run s (Get t # cs) = (r # rs, s2)" by (simp add: g rn)
  have ok: "r \<noteq> PackException" "r \<noteq> Undefined"
    and ok': "\<forall>r\<in>set (fst (run s1 cs)). r \<noteq> PackException \<and> r \<noteq> Undefined"
    using "3.prems" unfolding e by (simp_all add: rn)
  have ih: "map pkt_seq (packets rs) = map (\<lambda>k. seqNum s1 + of_nat k) [0..<length (packets rs)]"
    "seqNum s2 = seqNum s1 + of_nat (length (packets rs))"
    using "3.IH" [OF g [symmetric] ok'] by (simp_all add: rn)
  show ?case
  proof (cases r)
    case (Packet p)
    have q: "pkt_seq p = seqNum s" "seqNum s1 = seqNum s + 1"
      using get_Packet_seq [of t s p s1] g Packet by simp_all
    show ?thesis
      unfolding e fst_conv snd_conv Packet packets.simps list.map length_Cons map_upt_Suc
      by (simp add: q ih add.assoc)
  next
    case Nothing
    have q: "seqNum s1 = seqNum s"
      using get_Nothing_seq [of t s s1] g Nothing by simp
    show ?thesis
      unfolding e fst_conv snd_conv Nothing packets.simps
      by (simp add: q ih)
  next
    case PackException
    with ok show ?thesis by simp
  next
    case Undefined
    with ok show ?thesis by simp
  qed
qed

text \<open>
  Claim C4, as amended. Over any sequence of \<^verbatim>\<open>put\<close> and \<^verbatim>\<open>get\<close> calls in which no
  \<^verbatim>\<open>get\<close> raises, the packets that \<^verbatim>\<open>get\<close> emits carry consecutive sequence numbers,
  modulo 65536, starting at the packetizer's sequence number; \<^verbatim>\<open>put\<close> leaves the sequence
  number as it is.
\<close>

theorem sequence_numbers:
  assumes "\<forall>r\<in>set (fst (run s cs)). r \<noteq> PackException \<and> r \<noteq> Undefined"
  shows "map pkt_seq (packets (fst (run s cs)))
           = map (\<lambda>k. seqNum s + of_nat k) [0..<length (packets (fst (run s cs)))]
         \<and> seqNum (snd (run s cs)) = seqNum s + of_nat (length (packets (fst (run s cs))))
         \<and> seqNum (put b s) = seqNum s"
  using run_seq [OF assms] put_seqNum [of b s] by (intro conjI) simp_all

lemma steady_outcomes:
  "\<exists>p1 p2. fst (run (new_packer default_params 0) steady_calls) = [Packet p1, Nothing, Packet p2]"
  by (simp add: eval_defs steady_calls_def)

theorem sequence_numbers_witness:
  "(\<exists>p1 p2. fst (run (new_packer default_params 0) steady_calls) = [Packet p1, Nothing, Packet p2]) \<and>
   map pkt_seq (packets (fst (run (new_packer default_params 0) steady_calls))) = [0, 1] \<and>
   seqNum (snd (run (new_packer default_params 0) steady_calls)) = 2 \<and>
   seqNum (put (buffer_of whole_input) (new_packer default_params 0)) = 0"
proof -
  obtain p1 p2 where o: "fst (run (new_packer default_params 0) steady_calls) = [Packet p1, Nothing, Packet p2]"
    using steady_outcomes by (elim exE)
  have h: "\<forall>r\<in>set (fst (run (new_packer default_params 0) steady_calls)). r \<noteq> PackException \<and> r \<noteq> Undefined"
    unfolding o by simp
  have z: "seqNum (new_packer default_params 0) = 0" by (simp add: new_packer_def)
  have n: "length (packets (fst (run (new_packer default_params 0) steady_calls))) = 2"
    unfolding o by simp
  have m: "map (\<lambda>k. (0 :: 16 word) + of_nat k) [0..<2] = [0, 1]"
    by (simp add: upt_conv_Cons)
  from sequence_numbers [OF h, of "buffer_of whole_input"]
  have "map pkt_seq (packets (fst (run (new_packer default_params 0) steady_calls))) = [0, 1]"
    and "seqNum (snd (run (new_packer default_params 0) steady_calls)) = 2"
    and "seqNum (put (buffer_of whole_input) (new_packer default_params 0)) = 0"
    unfolding n z m by simp_all
  with steady_outcomes show ?thesis by (intro conjI)
qed

lemma whole_after_put:
  assumes "maxPacketLength (params s) = 20000"
  shows "\<exists>p s'. get t (put (buffer_of whole_input) s) = (Packet p, s') \<and> pkt_seq p = seqNum s \<and>
           seqNum s' = seqNum s + 1 \<and> params s' = params s"
proof -
  let ?s = "put (buffer_of whole_input) s"
  let ?s1 = "?s\<lparr>nextNaluPtr := None,
            nalu := \<lparr>startCodeLen = 4, ndata = 4, len = 10, forbiddenBit = 0,
                     nalRefIdc = 3, nalUnitType = 5\<rparr>\<rparr>"
  have f: "\<not> inBufferComplete ?s" "naluComplete ?s" "params ?s = params s" "seqNum ?s = seqNum s"
    by (simp_all add: put_def)
  have g: "get t ?s =
           (Packet (rtpHeader True (seqNum ?s) (sampleTime (tsStartMillisec ?s) t) (ssrc (params ?s))
                    @ [inBuffer ?s (ndata (nalu ?s1))]
                    @ bytesAt (inBuffer ?s) (ndata (nalu ?s1) + 1) (nat (len (nalu ?s1) - 1))),
            ?s1\<lparr>seqNum := seqNum ?s + 1, tsCurrentSample := sampleTime (tsStartMillisec ?s) t,
                naluComplete := True\<rparr>)"
    by (rule get_whole [OF f(1,2) select_whole]) (simp_all add: f assms MAX_OUTBUF_SIZE_def)
  show ?thesis
    unfolding g by (intro exI conjI, rule refl) (simp_all add: f)
qed

lemma big_after_put:
  assumes "maxPacketLength (params s) = 20000"
  shows "\<exists>s'. get t (put big_buffer s) = (PackException, s') \<and>
           seqNum s' = seqNum s + 1 \<and> params s' = params s"
proof -
  let ?s = "put big_buffer s"
  let ?s1 = "?s\<lparr>nextNaluPtr := None,
            nalu := \<lparr>startCodeLen = 3, ndata = 3, len = 10229, forbiddenBit = 0,
                     nalRefIdc = 2, nalUnitType = 1\<rparr>\<rparr>"
  have f: "\<not> inBufferComplete ?s" "naluComplete ?s" "params ?s = params s" "seqNum ?s = seqNum s"
    by (simp_all add: put_def)
  have g: "get t ?s = (PackException,
            ?s1\<lparr>seqNum := seqNum ?s + 1, tsCurrentSample := sampleTime (tsStartMillisec ?s) t\<rparr>)"
    by (rule get_whole_overflow [OF f(1,2) select_big]) (simp_all add: f assms MAX_OUTBUF_SIZE_def)
  show ?thesis
    unfolding g by (intro exI conjI, rule refl) (simp_all add: f)
qed

text \<open>
  Claim C4 as it was stated fails when a \<^verbatim>\<open>get\<close> raises in between: the call consumes
  a sequence number, and the packets before and after it carry 0 and 2.
\<close>

theorem sequence_gap_counterexample:
  "fst (run (new_packer big_params 0) overflow_calls) ! 1 = PackException \<and>
   map pkt_seq (packets (fst (run (new_packer big_params 0) overflow_calls))) = [0, 2]"
proof -
  let ?s0 = "new_packer big_params 0"
  have p0: "maxPacketLength (params ?s0) = 20000" "seqNum ?s0 = 0"
    by (simp_all add: new_packer_def big_params_def)
  obtain pa sa where a: "get 0 (put (buffer_of whole_input) ?s0) = (Packet pa, sa)"
    "pkt_seq pa = 0" "seqNum sa = 1" "maxPacketLength (params sa) = 20000"
    using whole_after_put [OF p0(1), of 0] p0 by (elim exE conjE) simp
  obtain sb where b: "get 0 (put big_buffer sa) = (PackException, sb)"
    "seqNum sb = 2" "maxPacketLength (params sb) = 20000"
    using big_after_put [OF a(4), of 0] a by (elim exE conjE) simp
  obtain pc sc where c: "get 0 (put (buffer_of whole_input) sb) = (Packet pc, sc)"
    "pkt_seq pc = 2"
    using whole_after_put [OF b(3), of 0] b by (elim exE conjE) simp
  have "fst (run ?s0 overflow_calls) = [Packet pa, PackException, Packet pc]"
    by (simp add: overflow_calls_def a b c)
  then show ?thesis
    by (simp add: a c)
qed

section \<open>Buffer overflow\<close>

lemma get_Packet_length:
  assumes "get t s = (Packet p, s')"
  shows "computedSize s = Some (int (length p)) \<and> int (length p) \<le> MAX_OUTBUF_SIZE"
proof (cases "naluComplete s")
  case True
  obtain r s1 where n: "getNextNalu s = (r, s1)" by (cases "getNextNalu s")
  let ?s2 = "s1\<lparr>seqNum := seqNum s1 + 1, tsCurrentSample := sampleTime (tsStartMillisec s1) t\<rparr>"
  from assms True n have ibc: "\<not> inBufferComplete s" and r: "0 < r"
    by (auto simp: get_def Let_def split: if_splits)
  from assms True n have c: "len (nalu s1) \<le> maxPacketLength (params s1) \<and> getWhole (seqNum s1) ?s2 = (Packet p, s')
      \<or> \<not> len (nalu s1) \<le> maxPacketLength (params s1) \<and> getFirstFU (seqNum s1) ?s2 = (Packet p, s')"
    by (auto simp: get_def Let_def split: if_splits)
  then show ?thesis
  proof (elim disjE conjE)
    assume l: "len (nalu s1) \<le> maxPacketLength (params s1)"
      and w: "getWhole (seqNum s1) ?s2 = (Packet p, s')"
    show ?thesis
      using getWhole_Packet(3,4) [OF w] True ibc r l
      by (simp add: getWhole_Packet(1) [OF w] computedSize_def n)
  next
    assume l: "\<not> len (nalu s1) \<le> maxPacketLength (params s1)"
      and w: "getFirstFU (seqNum s1) ?s2 = (Packet p, s')"
    show ?thesis
      using getFirstFU_Packet(3,4) [OF w] True ibc r l
      by (simp add: getFirstFU_Packet(1) [OF w] computedSize_def n)
  qed
next
  case False
  let ?s1 = "s\<lparr>seqNum := seqNum s + 1\<rparr>"
  from assms False have ibc: "\<not> inBufferComplete s"
    by (auto simp: get_def Let_def split: if_splits)
  from assms False have c: "fuIndex s = fuCounter s \<and> getLastFU (seqNum s) ?s1 = (Packet p, s')
      \<or> fuIndex s \<noteq> fuCounter s \<and> getMiddleFU (seqNum s) ?s1 = (Packet p, s')"
    by (auto simp: get_def Let_def split: if_splits)
  then show ?thesis
  proof (elim disjE conjE)
    assume l: "fuIndex s = fuCounter s" and w: "getLastFU (seqNum s) ?s1 = (Packet p, s')"
    show ?thesis
      using getLastFU_Packet(3,4) [OF w] False ibc l
      by (simp add: getLastFU_Packet(1) [OF w] computedSize_def)
  next
    assume l: "fuIndex s \<noteq> fuCounter s" and w: "getMiddleFU (seqNum s) ?s1 = (Packet p, s')"
    show ?thesis
      using getMiddleFU_Packet(3,4) [OF w] False ibc l
      by (simp add: getMiddleFU_Packet(1) [OF w] computedSize_def)
  qed
qed

lemma get_overflow:
  assumes "computedSize s = Some n" "MAX_OUTBUF_SIZE < n"
  shows "fst (get t s) = PackException"
proof (cases "naluComplete s")
  case True
  obtain r s1 where g: "getNextNalu s = (r, s1)" by (cases "getNextNalu s")
  show ?thesis
    using assms True
    by (auto simp: computedSize_def get_def g Let_def getWhole_def getFirstFU_def planFragments_frame
        split: if_splits)
next
  case False
  show ?thesis
    using assms False
    by (auto simp: computedSize_def get_def Let_def getLastFU_def getMiddleFU_def split: if_splits)
qed

text \<open>
  Claim C7. Whenever the size that \<^verbatim>\<open>get\<close> computes for the packet under construction
  exceeds the 10240 bytes of the scratch buffer, the call raises the
  \<^verbatim>\<open>PackException\<close> and returns no packet. A packet that is returned has exactly the
  computed size, which is within the buffer: nothing is cut off.
\<close>

theorem overflow_raises:
  "(computedSize s = Some n \<and> MAX_OUTBUF_SIZE < n \<longrightarrow> fst (get t s) = PackException)
   \<and> (get t s = (Packet p, s') \<longrightarrow>
        computedSize s = Some (int (length p)) \<and> int (length p) \<le> MAX_OUTBUF_SIZE)"
  using get_overflow [of s n t] get_Packet_length [of t s p s'] by (intro conjI impI) simp_all

theorem overflow_raises_witness:
  "computedSize big_state = Some 10241 \<and> fst (get 0 big_state) = PackException \<and>
   (\<exists>p s'. get 0 whole_state = (Packet p, s') \<and> computedSize whole_state = Some 22 \<and>
      int (length p) = 22)"
proof -
  have s: "getNextNalu big_state =
     (1, big_state\<lparr>nextNaluPtr := None,
            nalu := \<lparr>startCodeLen = 3, ndata = 3, len = 10229, forbiddenBit = 0,
                     nalRefIdc = 2, nalUnitType = 1\<rparr>\<rparr>)"
    unfolding big_state_def by (rule select_big)
  have c: "computedSize big_state = Some 10241"
    by (simp add: computedSize_def s) (simp add: big_state_def put_def new_packer_def big_params_def)
  have o: "fst (get 0 big_state) = PackException"
    by (rule overflow_raises [THEN conjunct1, THEN mp, of big_state 10241])
       (simp add: c MAX_OUTBUF_SIZE_def)
  obtain p s' where g: "get 0 whole_state = (Packet p, s')" and l: "int (length p) = len (nalu whole_selected) + 12"
    using whole_packet_fields [OF whole_state_facts(1,2) whole_state_select, of 0]
    by (auto simp: whole_state_facts MAX_OUTBUF_SIZE_def)
  have l22: "int (length p) = 22" using l by (simp add: whole_state_facts)
  have "computedSize whole_state = Some (int (length p)) \<and> int (length p) \<le> MAX_OUTBUF_SIZE"
    by (rule overflow_raises [THEN conjunct2, THEN mp, OF g])
  then have w: "computedSize whole_state = Some 22" unfolding l22 by (rule conjunct1)
  show ?thesis
    by (intro conjI exI) (rule c o g w l22)+
qed

section \<open>Packet sizes\<close>

lemma getWhole_state:
  "params (snd (getWhole sq s)) = params s"
  "naluComplete s \<Longrightarrow> naluComplete (snd (getWhole sq s))"
  by (simp_all add: getWhole_def Let_def split: option.split)

lemma getFirstFU_state:
  "params (snd (getFirstFU sq s)) = params s"
  "naluComplete s \<Longrightarrow> maxPacketLength (params s) < len (nalu s) \<Longrightarrow>
     naluComplete (snd (getFirstFU sq s)) \<or>
     (1 \<le> lastFuSize (snd (getFirstFU sq s)) \<and>
      lastFuSize (snd (getFirstFU sq s)) \<le> maxPacketLength (params s))"
proof -
  show "params (snd (getFirstFU sq s)) = params s"
    by (simp add: getFirstFU_def Let_def planFragments_frame split: option.split)
  assume nc: "naluComplete s" and l: "maxPacketLength (params s) < len (nalu s)"
  show "naluComplete (snd (getFirstFU sq s)) \<or>
     (1 \<le> lastFuSize (snd (getFirstFU sq s)) \<and>
      lastFuSize (snd (getFirstFU sq s)) \<le> maxPacketLength (params s))"
  proof (cases "0 < maxPacketLength (params s)")
    case True
    show ?thesis
      using planFragments_bounds(2,3) [OF True l] nc
      by (simp add: getFirstFU_def Let_def planFragments_frame split: option.split)
  next
    case False
    then show ?thesis
      using nc
      by (simp add: getFirstFU_def Let_def planFragments_frame memcpy_def split: option.split)
  qed
qed

lemma getLastFU_state:
  "params (snd (getLastFU sq s)) = params s"
  "lastFuSize (snd (getLastFU sq s)) = lastFuSize s"
  by (simp_all add: getLastFU_def Let_def split: option.split)

lemma getMiddleFU_state:
  "params (snd (getMiddleFU sq s)) = params s"
  "lastFuSize (snd (getMiddleFU sq s)) = lastFuSize s"
  by (simp_all add: getMiddleFU_def Let_def split: option.split)

lemma fragmenting_ok_new: "fragmenting_ok ps (new_packer ps t0)"
  by (simp add: fragmenting_ok_def new_packer_def)

lemma fragmenting_ok_put: "fragmenting_ok ps s \<Longrightarrow> fragmenting_ok ps (put b s)"
  by (simp add: fragmenting_ok_def put_def)

lemma fragmenting_ok_get:
  assumes "fragmenting_ok ps s"
  shows "fragmenting_ok ps (snd (get t s))"
proof (cases "inBufferComplete s")
  case True
  with assms show ?thesis by (simp add: get_def)
next
  case ibc: False
  show ?thesis
  proof (cases "naluComplete s")
    case True
    obtain r s1 where n: "getNextNalu s = (r, s1)" by (cases "getNextNalu s")
    have fr: "params s1 = params s" "naluComplete s1"
      using getNextNalu_frame [OF n] True by simp_all
    let ?s2 = "s1\<lparr>seqNum := seqNum s1 + 1, tsCurrentSample := sampleTime (tsStartMillisec s1) t\<rparr>"
    have p: "params s = ps" using assms by (simp add: fragmenting_ok_def)
    show ?thesis
    proof (cases "r \<le> 0")
      case True
      then show ?thesis
        using ibc \<open>naluComplete s\<close> fr p by (simp add: get_def n fragmenting_ok_def)
    next
      case r: False
      show ?thesis
      proof (cases "len (nalu s1) \<le> maxPacketLength (params s1)")
        case True
        have "get t s = getWhole (seqNum s1) ?s2"
          using ibc \<open>naluComplete s\<close> r True by (simp add: get_def n Let_def)
        then show ?thesis
          using getWhole_state [where s = ?s2 and sq = "seqNum s1"] fr p by (simp add: fragmenting_ok_def)
      next
        case False
        have "get t s = getFirstFU (seqNum s1) ?s2"
          using ibc \<open>naluComplete s\<close> r False by (simp add: get_def n Let_def)
        then show ?thesis
          using getFirstFU_state [where s = ?s2 and sq = "seqNum s1"] fr p False by (simp add: fragmenting_ok_def)
      qed
    qed
  next
    case False
    let ?s1 = "s\<lparr>seqNum := seqNum s + 1\<rparr>"
    have b: "params s = ps" "1 \<le> lastFuSize s" "lastFuSize s \<le> maxPacketLength ps"
      using assms False by (simp_all add: fragmenting_ok_def)
    show ?thesis
    proof (cases "fuIndex s = fuCounter s")
      case True
      have "get t s = getLastFU (seqNum s) ?s1"
        using ibc False True by (simp add: get_def Let_def)
      then show ?thesis
        using getLastFU_state [where s = ?s1 and sq = "seqNum s"] b by (simp add: fragmenting_ok_def)
    next
      case ne: False
      have "get t s = getMiddleFU (seqNum s) ?s1"
        using ibc False ne by (simp add: get_def Let_def)
      then show ?thesis
        using getMiddleFU_state [where s = ?s1 and sq = "seqNum s"] b by (simp add: fragmenting_ok_def)
    qed
  qed
qed

lemma fragmenting_ok_run:
  "fragmenting_ok ps s \<Longrightarrow> fragmenting_ok ps (snd (run s cs))"
proof (induction s cs rule: run.induct)
  case (1 s)
  then show ?case by simp
next
  case (2 s b cs)
  then show ?case by (simp add: fragmenting_ok_put)
next
  case (3 s t cs)
  obtain r s1 where g: "get t s = (r, s1)" by (cases "get t s")
  have "fragmenting_ok ps s1"
    using fragmenting_ok_get [OF "3.prems", of t] g by simp
  then have "fragmenting_ok ps (snd (run s1 cs))"
    using "3.IH" [OF g [symmetric]] by simp
  then show ?case
    by (auto simp: g split: prod.split)
qed

lemma get_Packet_sizes:
  assumes "fragmenting_ok ps s" "get t s = (Packet p, s')"
  shows "int (length p) \<le> maxPacketLength ps + 14
       \<and> (naluComplete s \<and> naluComplete s' \<longrightarrow> int (length p) \<le> maxPacketLength ps + 12)
       \<and> (\<not> naluComplete s' \<longrightarrow> int (length p) = maxPacketLength ps + 14)
       \<and> (\<not> naluComplete s \<and> naluComplete s' \<longrightarrow> int (length p) \<le> maxPacketLength ps + 13)"
proof (cases "naluComplete s")
  case True
  obtain r s1 where n: "getNextNalu s = (r, s1)" by (cases "getNextNalu s")
  have fr: "params s1 = params s" using getNextNalu_frame [OF n] by simp
  have p: "params s = ps" using assms(1) by (simp add: fragmenting_ok_def)
  let ?s2 = "s1\<lparr>seqNum := seqNum s1 + 1, tsCurrentSample := sampleTime (tsStartMillisec s1) t\<rparr>"
  from assms(2) True n have c: "len (nalu s1) \<le> maxPacketLength (params s1) \<and> getWhole (seqNum s1) ?s2 = (Packet p, s')
      \<or> \<not> len (nalu s1) \<le> maxPacketLength (params s1) \<and> getFirstFU (seqNum s1) ?s2 = (Packet p, s')"
    by (auto simp: get_def Let_def split: if_splits)
  then show ?thesis
  proof (elim disjE conjE)
    assume l: "len (nalu s1) \<le> maxPacketLength (params s1)"
      and w: "getWhole (seqNum s1) ?s2 = (Packet p, s')"
    show ?thesis
      using getWhole_Packet(3) [OF w] l True
      by (simp add: getWhole_Packet(1,2) [OF w] fr p)
  next
    assume l: "\<not> len (nalu s1) \<le> maxPacketLength (params s1)"
      and w: "getFirstFU (seqNum s1) ?s2 = (Packet p, s')"
    show ?thesis
      using getFirstFU_Packet(3) [OF w] l True
      by (simp add: getFirstFU_Packet(1,2) [OF w] fr p)
  qed
next
  case False
  let ?s1 = "s\<lparr>seqNum := seqNum s + 1\<rparr>"
  have b: "params s = ps" "1 \<le> lastFuSize s" "lastFuSize s \<le> maxPacketLength ps"
    using assms(1) False by (simp_all add: fragmenting_ok_def)
  from assms(2) False have c: "getLastFU (seqNum s) ?s1 = (Packet p, s')
      \<or> getMiddleFU (seqNum s) ?s1 = (Packet p, s')"
    by (auto simp: get_def Let_def split: if_splits)
  then show ?thesis
  proof
    assume w: "getLastFU (seqNum s) ?s1 = (Packet p, s')"
    show ?thesis
      using b False
      by (simp add: getLastFU_Packet(1,2) [OF w])
  next
    assume w: "getMiddleFU (seqNum s) ?s1 = (Packet p, s')"
    show ?thesis
      using b False getMiddleFU_Packet(3) [OF w]
      by (simp add: getMiddleFU_Packet(1,2) [OF w])
  qed
qed

text \<open>
  Claim C10. In every state that a packetizer reaches from its construction through
  \<^verbatim>\<open>put\<close> and \<^verbatim>\<open>get\<close> calls, a packet that \<^verbatim>\<open>get\<close> returns has at most
  \<open>maxPacketLength + 14\<close> bytes: at most \<open>maxPacketLength + 12\<close> when it is a whole NAL
  unit (the NAL unit was complete before the call and is complete after it), exactly
  \<open>maxPacketLength + 14\<close> when it is a fragment that is not the last (the NAL unit is
  incomplete after the call), and at most \<open>maxPacketLength + 13\<close> when it is the last
  fragment (incomplete before, complete after). This holds for every configuration, in
  particular for every \<open>maxPacketLength\<close> of at least 1.
\<close>

theorem packet_size_bound:
  assumes "s = snd (run (new_packer ps t0) cs)" "get t s = (Packet p, s')"
  shows "int (length p) \<le> maxPacketLength ps + 14
       \<and> (naluComplete s \<and> naluComplete s' \<longrightarrow> int (length p) \<le> maxPacketLength ps + 12)
       \<and> (\<not> naluComplete s' \<longrightarrow> int (length p) = maxPacketLength ps + 14)
       \<and> (\<not> naluComplete s \<and> naluComplete s' \<longrightarrow> int (length p) \<le> maxPacketLength ps + 13)"
proof -
  have "fragmenting_ok ps s"
    unfolding assms(1) by (rule fragmenting_ok_run [OF fragmenting_ok_new])
  then show ?thesis
    using assms(2) by (rule get_Packet_sizes)
qed

lemma two_fragments_sent_eval:
  "\<not> naluComplete (snd (run (new_packer \<lparr>maxPacketLength = 4, ssrc = 1234\<rparr> 0) two_fragments_sent)) \<and>
   (\<exists>p s'. get 2 (snd (run (new_packer \<lparr>maxPacketLength = 4, ssrc = 1234\<rparr> 0) two_fragments_sent))
              = (Packet p, s') \<and> naluComplete s' \<and> int (length p) = 15)"
  by (simp add: eval_defs two_fragments_sent_def frag_input_def getFirstFU_def getMiddleFU_def
      getLastFU_def planFragments_def c_div_def c_mod_def fuIndicator_def fuHeader_def)

theorem packet_size_bound_witness:
  "(\<exists>p s'. get 0 (snd (run (new_packer default_params 0) [Put (buffer_of whole_input)])) = (Packet p, s') \<and>
      naluComplete (snd (run (new_packer default_params 0) [Put (buffer_of whole_input)])) \<and>
      naluComplete s' \<and> int (length p) \<le> maxPacketLength default_params + 12) \<and>
   (\<exists>p s'. get 0 (snd (run (new_packer \<lparr>maxPacketLength = 4, ssrc = 1234\<rparr> 0) [Put (buffer_of frag_input)]))
        = (Packet p, s') \<and>
      \<not> naluComplete s' \<and> int (length p) = 18) \<and>
   (\<exists>p s'. get 2 (snd (run (new_packer \<lparr>maxPacketLength = 4, ssrc = 1234\<rparr> 0) two_fragments_sent))
        = (Packet p, s') \<and>
      \<not> naluComplete (snd (run (new_packer \<lparr>maxPacketLength = 4, ssrc = 1234\<rparr> 0) two_fragments_sent)) \<and>
      naluComplete s' \<and> int (length p) \<le> 17)"
proof -
  let ?small = "\<lparr>maxPacketLength = 4, ssrc = 1234\<rparr>"
  let ?sw = "snd (run (new_packer default_params 0) [Put (buffer_of whole_input)])"
  let ?sf = "snd (run (new_packer ?small 0) [Put (buffer_of frag_input)])"
  let ?sl = "snd (run (new_packer ?small 0) two_fragments_sent)"
  have sw: "?sw = whole_state" by (simp add: whole_state_def)
  have sf: "?sf = frag_state" by (simp add: frag_state_def)
  obtain pw sw' where gw: "get 0 ?sw = (Packet pw, sw')" and nw: "naluComplete sw'"
    unfolding sw
    using whole_packet_fields [OF whole_state_facts(1,2) whole_state_select, of 0]
    by (auto simp: whole_state_facts MAX_OUTBUF_SIZE_def)
  have ncw: "naluComplete ?sw" unfolding sw by (rule whole_state_facts)
  have a: "int (length pw) \<le> maxPacketLength default_params + 12"
    using packet_size_bound [OF refl gw, THEN conjunct2, THEN conjunct1] ncw nw by simp
  have gf0: "get 0 frag_state =
      (Packet (fragment (planFragments (frag_selected\<lparr>seqNum := seqNum frag_selected + 1,
                 tsCurrentSample := sampleTime (tsStartMillisec frag_selected) 0\<rparr>)) 0 (seqNum frag_state)),
       (planFragments (frag_selected\<lparr>seqNum := seqNum frag_selected + 1,
                 tsCurrentSample := sampleTime (tsStartMillisec frag_selected) 0\<rparr>))
         \<lparr>naluComplete := False, fuIndex := 1\<rparr>)"
    by (rule get_first [OF frag_state_facts(1,2) frag_state_select _ _ _ refl])
       (simp_all add: frag_state_facts MAX_OUTBUF_SIZE_def)
  obtain pf sf' where gf: "get 0 ?sf = (Packet pf, sf')" and nf: "\<not> naluComplete sf'"
    unfolding sf gf0 by simp
  have b: "int (length pf) = 18"
    using packet_size_bound [OF refl gf, THEN conjunct2, THEN conjunct2, THEN conjunct1] nf by simp
  obtain pl sl' where gl: "get 2 ?sl = (Packet pl, sl')" and nl: "naluComplete sl'"
    using two_fragments_sent_eval by (elim conjE exE)
  have ncl: "\<not> naluComplete ?sl"
    using two_fragments_sent_eval by (rule conjunct1)
  have c: "int (length pl) \<le> 17"
    using packet_size_bound [OF refl gl, THEN conjunct2, THEN conjunct2, THEN conjunct2] ncl nl by simp
  show ?thesis
    by (intro conjI exI) (rule gw ncw nw a gf nf b gl ncl nl c)+
qed

end
